theory Spec2Isabelle
  imports Complex_Main "HOL-Library.Word" "HOL-Library.AList"
begin

section \<open>JavaScript values\<close>

text \<open>
  A JavaScript string is a sequence of 16-bit code units; \<open>length\<close>, indexing,
  \<open>slice\<close> and \<open>trim\<close> all work on code units.  \<open>js\<close> embeds an ASCII literal.
\<close>

type_synonym code_unit = "16 word"
type_synonym jsstring = "code_unit list"

definition js :: "string \<Rightarrow> jsstring" where
  "js s = map of_char s"

definition QUOTE :: code_unit where "QUOTE = 0x22"
definition BACKSLASH :: code_unit where "BACKSLASH = 0x5C"
definition LBRACE :: code_unit where "LBRACE = 0x7B"
definition RBRACE :: code_unit where "RBRACE = 0x7D"

text \<open>
  The values that reach the server: everything \<open>JSON.parse\<close> can build, and \<open>undefined\<close>
  for an absent property.  A number is kept by its mathematical value (only its type and
  whether it is zero are ever inspected; the infinities that \<open>JSON.parse\<close> gives for
  numerals out of range are left out); an object is the list of its own properties in
  insertion order, looked up by key.
\<close>

datatype jsvalue =
    JUndefined
  | JNull
  | JBool bool
  | JNum rat
  | JStr jsstring
  | JArr "jsvalue list"
  | JObj "(jsstring \<times> jsvalue) list"

section \<open>The extraction scanner: \<open>extractJSON\<close>\<close>

text \<open>\<open>text[i]\<close>: \<open>undefined\<close> (here \<open>None\<close>) outside \<open>0 .. length - 1\<close>, also at \<open>i = -1\<close>.\<close>

definition char_at :: "'a list \<Rightarrow> int \<Rightarrow> 'a option" where
  "char_at text i = (if 0 \<le> i \<and> i < int (length text) then Some (text ! nat i) else None)"

text \<open>\<open>text.slice(a, b)\<close> for non-negative \<open>a\<close> and \<open>b\<close>.\<close>

definition slice_js :: "'a list \<Rightarrow> nat \<Rightarrow> nat \<Rightarrow> 'a list" where
  "slice_js text a b = take (b - a) (drop a text)"

text \<open>\<open>text.indexOf(x)\<close>: the first position holding \<open>x\<close>; \<open>None\<close> stands for \<open>-1\<close>.\<close>

fun indexOf :: "'a list \<Rightarrow> 'a \<Rightarrow> nat option" where
  "indexOf [] x = None"
| "indexOf (y # ys) x = (if y = x then Some 0 else map_option Suc (indexOf ys x))"

text \<open>
  \<open>extractJSON\<close> only uses \<open>indexOf\<close>, \<open>length\<close>, indexing and \<open>slice\<close>, which strings and
  arrays both have, so the scan is written once over a list of elements.  \<open>lit c\<close> is the
  element that \<open>===\<close> identifies with the one-unit string \<open>c\<close>: the code unit itself in a
  string, the string value \<open>JStr [c]\<close> in an array.

  \<open>body\<close> is one pass through the loop body at index \<open>i\<close>, up to the test \<open>depth === 0\<close>:
  the new values of \<open>depth\<close> and \<open>inString\<close>.
\<close>

definition body :: "(code_unit \<Rightarrow> 'a) \<Rightarrow> 'a list \<Rightarrow> nat \<Rightarrow> int \<times> bool \<Rightarrow> int \<times> bool" where
  "body lit text i st =
     (let depth = fst st; inString = snd st;
          ch = text ! i;
          inString = (if ch = lit QUOTE \<and> char_at text (int i - 1) \<noteq> Some (lit BACKSLASH)
                      then \<not> inString else inString);
          depth = (if \<not> inString
                   then (if ch = lit LBRACE then depth + 1
                         else if ch = lit RBRACE then depth - 1 else depth)
                   else depth)
      in (depth, inString))"

function scan :: "(code_unit \<Rightarrow> 'a) \<Rightarrow> 'a list \<Rightarrow> nat \<Rightarrow> nat \<Rightarrow> int \<times> bool \<Rightarrow> 'a list option" where
  "scan lit text start i st =
     (if i < length text then
        (let st' = body lit text i st
         in if \<not> snd st' \<and> fst st' = 0 then Some (slice_js text start (i + 1))
            else scan lit text start (i + 1) st')
      else None)"
  by pat_completeness auto
termination
  by (relation "measure (\<lambda>(lit, text, start, i, st). length text - i)") auto

declare scan.simps [simp del]

definition extractJSON_of :: "(code_unit \<Rightarrow> 'a) \<Rightarrow> 'a list \<Rightarrow> 'a list option" where
  "extractJSON_of lit text =
     (case indexOf text (lit LBRACE) of
        None \<Rightarrow> None
      | Some start \<Rightarrow> scan lit text start start (0, False))"

text \<open>On a string.  \<open>None\<close> is the \<open>null\<close> the function returns.\<close>

definition extractJSON :: "jsstring \<Rightarrow> jsstring option" where
  "extractJSON text = extractJSON_of (\<lambda>c. c) text"


text \<open>
  The values of \<open>depth\<close> and \<open>inString\<close> after \<open>n\<close> passes through the loop body from index
  \<open>i\<close> on, starting in state \<open>st\<close>, when no pass returns.
\<close>

primrec states :: "(code_unit \<Rightarrow> 'a) \<Rightarrow> 'a list \<Rightarrow> nat \<Rightarrow> int \<times> bool \<Rightarrow> nat \<Rightarrow> int \<times> bool" where
  "states lit text i st 0 = st"
| "states lit text i st (Suc n) = body lit text (i + n) (states lit text i st n)"

text \<open>
  On a string, the state after the scan has consumed the \<open>n\<close> code units from \<open>start\<close> on.
\<close>

definition scan_state :: "jsstring \<Rightarrow> nat \<Rightarrow> nat \<Rightarrow> int \<times> bool" where
  "scan_state text start n = states (\<lambda>c. c) text start (0, False) n"

subsection \<open>The scan in the specification's words\<close>

text \<open>
  The rule as the specification words it, to be compared with what the loop computes.
  A quote toggles when the code unit immediately before it is not a backslash (or there is
  none); nothing before that code unit is looked at.
\<close>

definition spec_toggles :: "jsstring \<Rightarrow> nat \<Rightarrow> bool" where
  "spec_toggles text i = (text ! i = QUOTE \<and> \<not> (0 < i \<and> text ! (i - 1) = BACKSLASH))"

text \<open>
  \<open>inString\<close> after the \<open>n\<close> code units from \<open>start\<close> on: whether an odd number of them
  were toggling quotes.
\<close>

definition spec_inString :: "jsstring \<Rightarrow> nat \<Rightarrow> nat \<Rightarrow> bool" where
  "spec_inString text start n = odd (length (filter (spec_toggles text) [start ..< start + n]))"

text \<open>
  \<open>depth\<close> after the \<open>n\<close> code units from \<open>start\<close> on: the opening braces read while not
  inside a string, minus the closing braces read while not inside a string.
\<close>

definition spec_depth :: "jsstring \<Rightarrow> nat \<Rightarrow> nat \<Rightarrow> int" where
  "spec_depth text start n =
     int (length (filter (\<lambda>i. text ! i = LBRACE \<and> \<not> spec_inString text start (i - start))
                   [start ..< start + n]))
     - int (length (filter (\<lambda>i. text ! i = RBRACE \<and> \<not> spec_inString text start (i - start))
                     [start ..< start + n]))"

text \<open>After the code unit at \<open>start + n\<close>, \<open>depth\<close> is 0 and the scan is outside any string.\<close>

definition spec_closed :: "jsstring \<Rightarrow> nat \<Rightarrow> nat \<Rightarrow> bool" where
  "spec_closed text start n =
     (spec_depth text start (Suc n) = 0 \<and> \<not> spec_inString text start (Suc n))"

subsection \<open>What a brace-balanced JSON object is\<close>

text \<open>
  The lexical structure of JSON text, as the JSON grammar has it: a string literal runs
  from a quote to the next quote that is not part of an escape sequence, and inside a string
  a backslash escapes the code unit after it (so \<open>\\\<close> is an escaped backslash and a quote
  after it closes the string).  Outside strings no backslash occurs.

  \<open>balanced d l cs\<close>: with \<open>d\<close> braces open and the lexer in state \<open>l\<close>, the text \<open>cs\<close>
  closes the outermost brace with its last code unit and not before.
\<close>

datatype lex = Outside | Inside | Escaped

fun balanced :: "nat \<Rightarrow> lex \<Rightarrow> jsstring \<Rightarrow> bool" where
  "balanced d l [] = False"
| "balanced d Outside (c # cs) =
     (if c = QUOTE then balanced d Inside cs
      else if c = LBRACE then balanced (Suc d) Outside cs
      else if c = RBRACE then
        (case d of 0 \<Rightarrow> False | Suc 0 \<Rightarrow> cs = [] | Suc d' \<Rightarrow> balanced d' Outside cs)
      else if c = BACKSLASH then False
      else balanced d Outside cs)"
| "balanced d Inside (c # cs) =
     (if c = QUOTE then balanced d Outside cs
      else if c = BACKSLASH then balanced d Escaped cs
      else balanced d Inside cs)"
| "balanced d Escaped (c # cs) = balanced d Inside cs"

text \<open>
  Every well-formed JSON object text satisfies \<open>well_formed_object\<close>: it starts with an
  opening brace, its string literals are terminated, and the braces outside string literals
  nest and close with the last code unit.
\<close>

definition well_formed_object :: "jsstring \<Rightarrow> bool" where
  "well_formed_object obj =
     (case obj of [] \<Rightarrow> False | c # cs \<Rightarrow> c = LBRACE \<and> balanced 1 Outside cs)"

text \<open>
  \<open>plain_quotes\<close>: no string literal ends with an escaped backslash, that is, no closing
  quote stands directly after a backslash.  The flag tells whether the code unit just read
  was a backslash that completed an escape sequence.
\<close>

fun plain_quotes :: "lex \<Rightarrow> bool \<Rightarrow> jsstring \<Rightarrow> bool" where
  "plain_quotes l b [] = True"
| "plain_quotes Outside b (c # cs) =
     (if c = QUOTE then plain_quotes Inside False cs else plain_quotes Outside False cs)"
| "plain_quotes Inside b (c # cs) =
     (if c = QUOTE then \<not> b \<and> plain_quotes Outside False cs
      else if c = BACKSLASH then plain_quotes Escaped False cs
      else plain_quotes Inside False cs)"
| "plain_quotes Escaped b (c # cs) = plain_quotes Inside (c = BACKSLASH) cs"

definition plain_closing_quotes :: "jsstring \<Rightarrow> bool" where
  "plain_closing_quotes obj = plain_quotes Outside False obj"

subsection \<open>The scan as a recursion over the remaining text\<close>

text \<open>
  For the proofs, the loop is restated over the part of the text still to be read:
  \<open>step\<close> is the loop body given the element before the current one, and \<open>run\<close> gives
  the number of elements read when the loop returns.  Lemma \<open>scan_run\<close> below shows that
  \<open>scan\<close> computes exactly this.
\<close>

definition step :: "(code_unit \<Rightarrow> 'a) \<Rightarrow> 'a option \<Rightarrow> 'a \<Rightarrow> int \<times> bool \<Rightarrow> int \<times> bool" where
  "step lit prev ch st =
     (let inString = (if ch = lit QUOTE \<and> prev \<noteq> Some (lit BACKSLASH) then \<not> snd st else snd st)
      in (if \<not> inString
          then (if ch = lit LBRACE then fst st + 1 else if ch = lit RBRACE then fst st - 1 else fst st)
          else fst st, inString))"

fun run :: "(code_unit \<Rightarrow> 'a) \<Rightarrow> 'a option \<Rightarrow> 'a list \<Rightarrow> int \<times> bool \<Rightarrow> nat option" where
  "run lit prev [] st = None"
| "run lit prev (ch # rest) st =
     (let st' = step lit prev ch st
      in if \<not> snd st' \<and> fst st' = 0 then Some 1
         else map_option Suc (run lit (Some ch) rest st'))"

section \<open>The input sanitizer: \<open>sanitizeInput\<close>\<close>

text \<open>\<open>typeof\<close> and the truthiness that \<open>!\<close> and \<open>||\<close> test.\<close>

fun typeof :: "jsvalue \<Rightarrow> string" where
  "typeof JUndefined = ''undefined''"
| "typeof JNull = ''object''"
| "typeof (JBool b) = ''boolean''"
| "typeof (JNum n) = ''number''"
| "typeof (JStr s) = ''string''"
| "typeof (JArr a) = ''object''"
| "typeof (JObj kvs) = ''object''"

fun truthy :: "jsvalue \<Rightarrow> bool" where
  "truthy JUndefined = False"
| "truthy JNull = False"
| "truthy (JBool b) = b"
| "truthy (JNum n) = (n \<noteq> 0)"
| "truthy (JStr s) = (s \<noteq> [])"
| "truthy (JArr a) = True"
| "truthy (JObj kvs) = True"

definition js_or :: "jsvalue \<Rightarrow> jsvalue \<Rightarrow> jsvalue" where
  "js_or a b = (if truthy a then a else b)"

text \<open>
  \<open>String.prototype.trim\<close> removes the code units of ECMAScript's WhiteSpace and
  LineTerminator productions from both ends.
\<close>

definition is_whitespace :: "code_unit \<Rightarrow> bool" where
  "is_whitespace c =
     (c \<in> {0x9, 0xA, 0xB, 0xC, 0xD, 0x20, 0xA0, 0x1680, 0x2028, 0x2029, 0x202F, 0x205F,
            0x3000, 0xFEFF}
      \<or> (0x2000 \<le> c \<and> c \<le> 0x200A))"

definition trim :: "jsstring \<Rightarrow> jsstring" where
  "trim s = rev (dropWhile is_whitespace (rev (dropWhile is_whitespace s)))"

definition sanitizeInput :: "jsvalue \<Rightarrow> jsstring" where
  "sanitizeInput text =
     (if \<not> truthy text \<or> typeof text \<noteq> ''string'' then []
      else (case text of JStr s \<Rightarrow> (let trimmed = slice_js (trim s) 0 800 in trimmed)
            | _ \<Rightarrow> []))"


section \<open>The schema and its validator: \<open>jsonSchema\<close>, \<open>validateJSON\<close>\<close>

text \<open>
  Reading a property of a value that is neither \<open>undefined\<close> nor \<open>null\<close>.  The names this
  program reads (\<open>prompt\<close>, \<open>engine\<close>, \<open>params\<close>, \<open>choices\<close>, ...) are own properties
  of parsed objects only: no prototype defines them, so every other value gives \<open>undefined\<close>.
\<close>

fun get_prop :: "jsvalue \<Rightarrow> jsstring \<Rightarrow> jsvalue" where
  "get_prop (JObj kvs) k = (case map_of kvs k of None \<Rightarrow> JUndefined | Some v \<Rightarrow> v)"
| "get_prop v k = JUndefined"

text \<open>
  The schema keywords that \<open>jsonSchema\<close> uses: \<open>type\<close> (one name or a list of names),
  \<open>properties\<close> and \<open>required\<close>.
\<close>

datatype json_type = TString | TNumber | TObject | TNull

datatype schema =
  Schema (types: "json_type list") (properties: "(jsstring \<times> schema) list")
    (required: "jsstring list")

text \<open>The two nested object schemas of \<open>jsonSchema\<close>, then \<open>jsonSchema\<close> itself.\<close>

definition details_schema :: schema where
  "details_schema =
     Schema [TObject]
       [(js ''subject'', Schema [TString] [] []),
        (js ''background'', Schema [TString] [] []),
        (js ''mood'', Schema [TString] [] []),
        (js ''colors'', Schema [TString] [] [])]
       [js ''subject'']"

definition params_schema :: schema where
  "params_schema =
     Schema [TObject]
       [(js ''engine'', Schema [TString] [] []),
        (js ''resolution'', Schema [TString] [] []),
        (js ''cfg_scale'', Schema [TNumber] [] []),
        (js ''steps'', Schema [TNumber] [] []),
        (js ''sampler'', Schema [TString] [] []),
        (js ''seed'', Schema [TNumber, TNull] [] [])]
       []"

definition jsonSchema :: schema where
  "jsonSchema =
     Schema [TObject]
       [(js ''prompt'', Schema [TString] [] []),
        (js ''negative_prompt'', Schema [TString] [] []),
        (js ''style'', Schema [TString] [] []),
        (js ''lighting'', Schema [TString] [] []),
        (js ''camera'', Schema [TString] [] []),
        (js ''details'', details_schema),
        (js ''params'', params_schema)]
       [js ''prompt'', js ''params'']"

text \<open>
  What \<open>ajv.compile\<close> makes of such a schema, with Ajv's default options.  The
  data must have one of the listed types.  On an object, \<open>required\<close> is checked before
  \<open>properties\<close>; a property counts as present when its value is not \<open>undefined\<close>, and only
  present properties are checked against their sub-schemas.  Validation stops at the first
  violation (\<open>allErrors\<close> is off), so \<open>validateJSON.errors\<close> holds one entry when the data
  is rejected; the empty list stands for acceptance.  A violation carries the path of the
  offending value from the root.
\<close>

fun has_type :: "json_type \<Rightarrow> jsvalue \<Rightarrow> bool" where
  "has_type TString v = (typeof v = ''string'')"
| "has_type TNumber v = (typeof v = ''number'')"
| "has_type TObject v = (case v of JObj kvs \<Rightarrow> True | _ \<Rightarrow> False)"
| "has_type TNull v = (v = JNull)"

datatype violation =
    WrongType "jsstring list" "json_type list"
  | MissingProperty "jsstring list" jsstring

fun validate :: "schema \<Rightarrow> jsstring list \<Rightarrow> jsvalue \<Rightarrow> violation list"
  and validate_properties :: "(jsstring \<times> schema) list \<Rightarrow> jsstring list \<Rightarrow> jsvalue \<Rightarrow> violation list"
where
  "validate (Schema ts props req) path data =
     (if \<not> list_ex (\<lambda>t. has_type t data) ts then [WrongType path ts]
      else if has_type TObject data then
        (case List.find (\<lambda>k. get_prop data k = JUndefined) req of
           Some k \<Rightarrow> [MissingProperty path k]
         | None \<Rightarrow> validate_properties props path data)
      else [])"
| "validate_properties [] path data = []"
| "validate_properties ((k, sch) # props) path data =
     (if get_prop data k \<noteq> JUndefined then
        (case validate sch (path @ [k]) (get_prop data k) of
           [] \<Rightarrow> validate_properties props path data
         | errors \<Rightarrow> errors)
      else validate_properties props path data)"

definition validateJSON :: "jsvalue \<Rightarrow> violation list" where
  "validateJSON data = validate jsonSchema [] data"


section \<open>The request handler: \<open>app.post("/api/convert")\<close>\<close>

text \<open>
  What the handler answers: the status and the JSON body given to \<open>res.json\<close>, one
  constructor for each shape of body the handler builds.
\<close>

datatype payload =
    Error string
  | ErrorDetail string jsstring
  | ErrorRaw string jsvalue
  | ErrorDetails string "violation list" jsvalue
  | OkResult jsvalue

record response =
  status :: nat
  payload :: payload

text \<open>
  The handler's surroundings.  \<open>OPENAI_KEY\<close> is the configured credential (a string, or
  \<open>undefined\<close>).  \<open>fetch\<close> is the provider: it gets the credential and the two values put
  into the user message, and either rejects or resolves to a response whose body can be read
  (\<open>None\<close>: reading it fails).  \<open>JSON_parse\<close> and \<open>ToString\<close> are the built-ins
  \<open>JSON.parse\<close> and the conversion a template literal applies; \<open>None\<close> means they throw.
\<close>

record provider_request =
  authorization :: jsvalue
  user_prompt :: jsstring
  engine :: jsstring

record provider_response =
  ok :: bool
  body_text :: "jsstring option"

datatype fetch_result = Rejected | Resolved provider_response

record env =
  OPENAI_KEY :: jsvalue
  fetch :: "provider_request \<Rightarrow> fetch_result"
  JSON_parse :: "jsvalue \<Rightarrow> jsvalue option"
  ToString :: "jsvalue \<Rightarrow> jsstring option"

text \<open>
  The outcome of one request: the response sent, and the calls made to the provider, in
  order.
\<close>

record outcome =
  sent :: response
  provider_calls :: "provider_request list"

definition respond :: "nat \<Rightarrow> payload \<Rightarrow> provider_request list \<Rightarrow> outcome" where
  "respond code p calls = \<lparr>sent = \<lparr>status = code, payload = p\<rparr>, provider_calls = calls\<rparr>"

text \<open>The \<open>catch\<close> block: whatever is thrown inside the handler ends here.\<close>

definition server_error :: "provider_request list \<Rightarrow> outcome" where
  "server_error calls = respond 500 (Error ''Server error'') calls"

text \<open>
  \<open>v.k\<close> throws a TypeError (\<open>None\<close>) on \<open>undefined\<close> and \<open>null\<close>; \<open>v?.k\<close> gives
  \<open>undefined\<close> there.  \<open>v?.[0]\<close> is the first element of an array, the first code unit
  of a string as a string, and the property \<open>0\<close> of an object.
\<close>

definition nullish :: "jsvalue \<Rightarrow> bool" where
  "nullish v = (v = JUndefined \<or> v = JNull)"

definition member :: "jsvalue \<Rightarrow> jsstring \<Rightarrow> jsvalue option" where
  "member v k = (if nullish v then None else Some (get_prop v k))"

definition opt_member :: "jsvalue \<Rightarrow> jsstring \<Rightarrow> jsvalue" where
  "opt_member v k = (if nullish v then JUndefined else get_prop v k)"

fun opt_first :: "jsvalue \<Rightarrow> jsvalue" where
  "opt_first (JArr a) = (case a of [] \<Rightarrow> JUndefined | x # _ \<Rightarrow> x)"
| "opt_first (JStr s) = (case s of [] \<Rightarrow> JUndefined | c # _ \<Rightarrow> JStr [c])"
| "opt_first v = opt_member v (js ''0'')"

text \<open>
  \<open>extractJSON\<close> applied to whatever the provider's reply holds: a string, an array (which
  has \<open>indexOf\<close>, \<open>length\<close> and \<open>slice\<close> too), or a value on which \<open>text.indexOf\<close> is not
  a function, so that the call throws (\<open>None\<close>).
\<close>

fun extractJSON_value :: "jsvalue \<Rightarrow> jsvalue option" where
  "extractJSON_value (JStr s) =
     Some (case extractJSON s of None \<Rightarrow> JNull | Some r \<Rightarrow> JStr r)"
| "extractJSON_value (JArr a) =
     Some (case extractJSON_of (\<lambda>c. JStr [c]) a of None \<Rightarrow> JNull | Some r \<Rightarrow> JArr r)"
| "extractJSON_value v = None"

text \<open>
  \<open>outputObj.params.engine = enginePref\<close>.  The assignment replaces the property where it
  stands or adds it at the end.  It runs on validated objects only, whose \<open>params\<close> is an
  object; on anything else the model gives \<open>None\<close>.
\<close>

definition enforce_engine :: "jsvalue \<Rightarrow> jsvalue \<Rightarrow> jsvalue option" where
  "enforce_engine outputObj enginePref =
     (case outputObj of
        JObj kvs \<Rightarrow>
          (case get_prop outputObj (js ''params'') of
             JObj ps \<Rightarrow>
               Some (JObj (AList.update (js ''params'')
                             (JObj (AList.update (js ''engine'') enginePref ps)) kvs))
           | _ \<Rightarrow> None)
      | _ \<Rightarrow> None)"

text \<open>The handler from the validation of the parsed object on.\<close>

definition validate_and_enforce :: "jsvalue \<Rightarrow> jsvalue \<Rightarrow> provider_request list \<Rightarrow> outcome" where
  "validate_and_enforce outputObj enginePref calls =
     (let errors = validateJSON outputObj in
      if errors \<noteq> [] then
        respond 502 (ErrorDetails ''Generated JSON failed validation'' errors outputObj) calls
      else
        (case enforce_engine outputObj enginePref of
           None \<Rightarrow> server_error calls
         | Some result \<Rightarrow> respond 200 (OkResult result) calls))"

text \<open>The handler from the provider's parsed reply \<open>data\<close> on.\<close>

definition handle_reply :: "env \<Rightarrow> jsvalue \<Rightarrow> jsvalue \<Rightarrow> provider_request list \<Rightarrow> outcome" where
  "handle_reply e data enginePref calls =
     (let choice = opt_first (opt_member data (js ''choices''));
          rawText = js_or (opt_member (opt_member choice (js ''message'')) (js ''content''))
                          (opt_member choice (js ''text''))
      in if \<not> truthy rawText then respond 502 (Error ''No response from AI provider'') calls
         else
           (case extractJSON_value rawText of
              None \<Rightarrow> server_error calls
            | Some jsonCandidate \<Rightarrow>
                if \<not> truthy jsonCandidate then
                  respond 502 (ErrorRaw ''AI did not return JSON'' rawText) calls
                else
                  (case JSON_parse e jsonCandidate of
                     None \<Rightarrow> respond 502 (ErrorRaw ''AI returned invalid JSON'' jsonCandidate) calls
                   | Some outputObj \<Rightarrow> validate_and_enforce outputObj enginePref calls)))"

text \<open>The handler from the call to the provider on.\<close>

definition call_provider :: "env \<Rightarrow> jsstring \<Rightarrow> jsvalue \<Rightarrow> jsstring \<Rightarrow> outcome" where
  "call_provider e userPrompt enginePref engineText =
     (if \<not> truthy (OPENAI_KEY e) then
        respond 500 (Error ''Server misconfigured: missing OPENAI API key'') []
      else
        (let request = \<lparr>authorization = OPENAI_KEY e, user_prompt = userPrompt,
                          engine = engineText\<rparr>
         in case fetch e request of
              Rejected \<Rightarrow> server_error [request]
            | Resolved openaiRes \<Rightarrow>
                (case body_text openaiRes of
                   None \<Rightarrow> server_error [request]
                 | Some txt \<Rightarrow>
                     if \<not> ok openaiRes then
                       respond 502 (ErrorDetail ''AI provider error'' txt) [request]
                     else
                       (case JSON_parse e (JStr txt) of
                          None \<Rightarrow> server_error [request]
                        | Some data \<Rightarrow> handle_reply e data enginePref [request]))))"

text \<open>The whole handler, on the parsed request body \<open>req.body\<close>.\<close>

definition convert :: "env \<Rightarrow> jsvalue \<Rightarrow> outcome" where
  "convert e reqBody =
     (case member reqBody (js ''prompt'') of
        None \<Rightarrow> server_error []
      | Some userPromptRaw \<Rightarrow>
          (let enginePref = js_or (get_prop reqBody (js ''engine'')) (JStr (js ''stable''));
               userPrompt = sanitizeInput userPromptRaw
           in if userPrompt = [] then respond 400 (Error ''Empty prompt'') []
              else
                (case ToString e enginePref of
                   None \<Rightarrow> server_error []
                 | Some engineText \<Rightarrow> call_provider e userPrompt enginePref engineText)))"

subsection \<open>A sample exchange with the provider\<close>

text \<open>
  Concrete surroundings on which the theorems below are instantiated.  \<open>reply_body\<close> is the
  JSON text of a chat completion whose message content is \<open>content\<close>; in \<open>sample_env\<close> the
  provider answers every request with it, and \<open>JSON.parse\<close> is given by the two texts the
  handler parses: that body and the extracted candidate.  \<open>bare_env\<close> has no credential and
  a provider that cannot be reached.
\<close>

definition json_escape :: "jsstring \<Rightarrow> jsstring" where
  "json_escape s = concat (map (\<lambda>c. if c = QUOTE \<or> c = BACKSLASH then [BACKSLASH, c] else [c]) s)"

definition reply_body :: "jsstring \<Rightarrow> jsstring" where
  \<open>reply_body content =
     js ''{"choices":[{"message":{"content":"'' @ json_escape content @ js ''"}}]}''\<close>

definition sample_env :: "jsstring \<Rightarrow> jsstring \<Rightarrow> jsvalue \<Rightarrow> env" where
  "sample_env content candidate parsed =
     \<lparr>OPENAI_KEY = JStr (js ''sk-test''),
      fetch = (\<lambda>request. Resolved \<lparr>ok = True, body_text = Some (reply_body content)\<rparr>),
      JSON_parse = (\<lambda>v.
        if v = JStr (reply_body content) then
          Some (JObj [(js ''choices'',
                  JArr [JObj [(js ''message'', JObj [(js ''content'', JStr content)])]])])
        else if v = JStr candidate then Some parsed
        else None),
      ToString = (\<lambda>v. case v of JStr s \<Rightarrow> Some s | _ \<Rightarrow> None)\<rparr>"

definition bare_env :: env where
  "bare_env = \<lparr>OPENAI_KEY = JUndefined, fetch = (\<lambda>request. Rejected),
                 JSON_parse = (\<lambda>v. None), ToString = (\<lambda>v. None)\<rparr>"

definition sample_content :: jsstring where
  \<open>sample_content = js ''Here: {"prompt":"fox","params":{"engine":"dalle"}} bye''\<close>

definition sample_candidate :: jsstring where
  \<open>sample_candidate = js ''{"prompt":"fox","params":{"engine":"dalle"}}''\<close>

definition sample_object :: jsvalue where
  "sample_object =
     JObj [(js ''prompt'', JStr (js ''fox'')),
           (js ''params'', JObj [(js ''engine'', JStr (js ''dalle''))])]"

section \<open>Properties of the extraction scanner\<close>

lemma body_step:
  "i < length text \<Longrightarrow> body lit text i st = step lit (char_at text (int i - 1)) (text ! i) st"
  by (simp add: body_def step_def Let_def)

lemma char_at_Suc: "i < length text \<Longrightarrow> char_at text (int (i + 1) - 1) = Some (text ! i)"
  by (simp add: char_at_def)

lemma scan_run:
  "scan lit text start i st =
     map_option (\<lambda>n. slice_js text start (i + n)) (run lit (char_at text (int i - 1)) (drop i text) st)"
proof (induction lit "text" start i st rule: scan.induct)
  case (1 lit t start i st)
  show ?case
  proof (cases "i < length t")
    case False
    then show ?thesis by (subst scan.simps) simp
  next
    case True
    then have d: "drop i t = t ! i # drop (i + 1) t"
      by (simp add: Cons_nth_drop_Suc)
    let ?st' = "body lit t i st"
    show ?thesis
    proof (cases "\<not> snd ?st' \<and> fst ?st' = 0")
      case stop: True
      then show ?thesis using True
        by (subst scan.simps) (simp add: d body_step [symmetric] Let_def)
    next
      case go: False
      have "scan lit t start i st = scan lit t start (i + 1) ?st'"
        using True go by (subst scan.simps) (auto simp: Let_def)
      also have "\<dots> = map_option (\<lambda>n. slice_js t start (i + 1 + n))
                          (run lit (Some (t ! i)) (drop (i + 1) t) ?st')"
        using "1.IH" [OF True refl go] True by (simp only: char_at_Suc)
      also have "\<dots> = map_option (\<lambda>n. slice_js t start (i + n))
                          (map_option Suc (run lit (Some (t ! i)) (drop (i + 1) t) ?st'))"
        by (simp add: option.map_comp comp_def)
      also have "map_option Suc (run lit (Some (t ! i)) (drop (i + 1) t) ?st') =
                 run lit (char_at t (int i - 1)) (drop i t) st"
        using go by (subst d) (auto simp: body_step [OF True, symmetric] Let_def)
      finally show ?thesis .
    qed
  qed
qed

lemma run_append: "run lit prev xs st = Some n \<Longrightarrow> run lit prev (xs @ ys) st = Some n"
proof (induction xs arbitrary: prev st n)
  case Nil
  then show ?case by simp
next
  case (Cons x xs)
  let ?st' = "step lit prev x st"
  show ?case
  proof (cases "\<not> snd ?st' \<and> fst ?st' = 0")
    case True
    then show ?thesis using Cons.prems by (simp add: Let_def)
  next
    case False
    then obtain m where m: "run lit (Some x) xs ?st' = Some m" and n: "n = Suc m"
      using Cons.prems by (auto simp: Let_def)
    from Cons.IH [OF m] False n show ?thesis by (auto simp: Let_def)
  qed
qed

lemma consts_distinct:
  "QUOTE \<noteq> LBRACE" "QUOTE \<noteq> RBRACE" "QUOTE \<noteq> BACKSLASH" "LBRACE \<noteq> RBRACE"
  "LBRACE \<noteq> BACKSLASH" "RBRACE \<noteq> BACKSLASH"
  "LBRACE \<noteq> QUOTE" "RBRACE \<noteq> QUOTE" "BACKSLASH \<noteq> QUOTE" "RBRACE \<noteq> LBRACE"
  "BACKSLASH \<noteq> LBRACE" "BACKSLASH \<noteq> RBRACE"
  by (simp_all add: QUOTE_def LBRACE_def RBRACE_def BACKSLASH_def)

lemma run_balanced:
  "balanced d l cs \<Longrightarrow> plain_quotes l b cs \<Longrightarrow> 0 < d \<Longrightarrow>
   (l = Outside \<longrightarrow> \<not> s \<and> prev \<noteq> Some BACKSLASH) \<Longrightarrow>
   (l = Inside \<longrightarrow> s \<and> (prev = Some BACKSLASH \<longrightarrow> b)) \<Longrightarrow>
   (l = Escaped \<longrightarrow> s \<and> prev = Some BACKSLASH) \<Longrightarrow> depth = int d \<Longrightarrow>
   run (\<lambda>c. c) prev cs (depth, s) = Some (length cs)"
proof (induction d l cs arbitrary: b s prev depth rule: balanced.induct)
  case (1 d l)
  then show ?case by simp
next
  case (2 d c cs)
  then show ?case
    by (auto simp: step_def Let_def consts_distinct algebra_simps split: if_splits nat.splits)
next
  case (3 d c cs)
  then show ?case 
    by (auto simp: step_def Let_def consts_distinct algebra_simps split: if_splits nat.splits)
next
  case (4 d c cs)
  then show ?case
    by (auto simp: step_def Let_def consts_distinct algebra_simps split: if_splits nat.splits)
qed


lemma indexOf_None: "indexOf xs x = None \<longleftrightarrow> x \<notin> set xs"
  by (induction xs) auto

lemma indexOf_Some:
  "indexOf xs x = Some i \<Longrightarrow> i < length xs \<and> xs ! i = x \<and> x \<notin> set (take i xs)"
  by (induction xs arbitrary: i) (auto split: if_splits)

lemma indexOf_append: "x \<notin> set pre \<Longrightarrow> indexOf (pre @ x # xs) x = Some (length pre)"
  by (induction pre) auto

lemma extractJSON_object:
  assumes pre: "LBRACE \<notin> set pre"
    and wf: "well_formed_object obj"
    and plain: "plain_closing_quotes obj"
  shows "extractJSON (pre @ obj @ rest) = Some obj"
proof -
  from wf obtain cs where obj: "obj = LBRACE # cs" and bal: "balanced 1 Outside cs"
    by (auto simp: well_formed_object_def split: list.splits)
  from plain have pq: "plain_quotes Outside False cs"
    by (simp add: plain_closing_quotes_def obj consts_distinct)
  let ?t = "pre @ obj @ rest"
  let ?n = "length pre"
  have idx: "indexOf ?t LBRACE = Some ?n"
    using indexOf_append [OF pre] by (simp add: obj)
  have "run (\<lambda>c. c) (Some LBRACE) cs (1, False) = Some (length cs)"
    using run_balanced [OF bal pq, of False "Some LBRACE" 1] by (simp add: consts_distinct)
  then have "run (\<lambda>c. c) (Some LBRACE) (cs @ rest) (1, False) = Some (length cs)"
    by (rule run_append)
  then have r: "run (\<lambda>c. c) (char_at ?t (int ?n - 1)) (drop ?n ?t) (0, False) = Some (length obj)"
    by (simp add: obj step_def consts_distinct)
  have "extractJSON ?t = scan (\<lambda>c. c) ?t ?n ?n (0, False)"
    by (simp add: extractJSON_def extractJSON_of_def idx)
  also have "\<dots> = Some (slice_js ?t ?n (?n + length obj))"
    unfolding scan_run r by simp
  also have "slice_js ?t ?n (?n + length obj) = obj"
    by (simp add: slice_js_def)
  finally show ?thesis .
qed

lemmas eval_scan = extractJSON_def extractJSON_of_def scan.simps body_def char_at_def
  slice_js_def js_def LBRACE_def RBRACE_def QUOTE_def BACKSLASH_def

text \<open>
  C1 (as amended).  Take a text made of a well-formed brace-balanced JSON object with
  brace-free text before and after it.  If no string literal of the object ends with an
  escaped backslash (no closing quote stands directly after a backslash), \<open>extractJSON\<close>
  returns exactly the object: not \<open>null\<close>, not a shorter or longer slice.
\<close>

theorem extractJSON_single_object:
  assumes "LBRACE \<notin> set pre" and "RBRACE \<notin> set pre"
    and "LBRACE \<notin> set post" and "RBRACE \<notin> set post"
    and "well_formed_object obj" and "plain_closing_quotes obj"
  shows "extractJSON (pre @ obj @ post) = Some obj"
  using assms(1,5,6) by (rule extractJSON_object)

theorem extractJSON_single_object_witness:
  \<open>LBRACE \<notin> set (js ''Here: '') \<and> RBRACE \<notin> set (js ''Here: '')
   \<and> LBRACE \<notin> set (js '' ok'') \<and> RBRACE \<notin> set (js '' ok'')
   \<and> well_formed_object (js ''{"note":"a } in string"}'')
   \<and> plain_closing_quotes (js ''{"note":"a } in string"}'')
   \<and> extractJSON (js ''Here: '' @ js ''{"note":"a } in string"}'' @ js '' ok'')
       = Some (js ''{"note":"a } in string"}'')\<close>
proof -
  have 1: \<open>LBRACE \<notin> set (js ''Here: '')\<close> and 2: \<open>RBRACE \<notin> set (js ''Here: '')\<close>
    and 3: \<open>LBRACE \<notin> set (js '' ok'')\<close> and 4: \<open>RBRACE \<notin> set (js '' ok'')\<close>
    by (simp_all add: js_def LBRACE_def RBRACE_def)
  have 5: \<open>well_formed_object (js ''{"note":"a } in string"}'')\<close>
    by (simp add: well_formed_object_def js_def LBRACE_def RBRACE_def QUOTE_def BACKSLASH_def)
  have 6: \<open>plain_closing_quotes (js ''{"note":"a } in string"}'')\<close>
    by (simp add: plain_closing_quotes_def js_def LBRACE_def RBRACE_def QUOTE_def BACKSLASH_def)
  from extractJSON_single_object [OF 1 2 3 4 5 6] 1 2 3 4 5 6 show ?thesis by blast
qed

text \<open>
  The property as the specification states it does not hold: the object \<open>{"dir":"C:\\"}\<close>, whose
  string ends with an escaped backslash, is well-formed JSON, and the scanner returns \<open>null\<close>
  for it, because it does not take the quote after the second backslash for a closing quote.
\<close>

theorem extractJSON_single_object_counterexample:
  \<open>LBRACE \<notin> set (js ''Path: '') \<and> RBRACE \<notin> set (js ''Path: '')
   \<and> LBRACE \<notin> set (js '' end'') \<and> RBRACE \<notin> set (js '' end'')
   \<and> well_formed_object (js ''{"dir":"C:'' @ [BACKSLASH, BACKSLASH] @ js ''"}'')
   \<and> extractJSON (js ''Path: '' @ (js ''{"dir":"C:'' @ [BACKSLASH, BACKSLASH] @ js ''"}'')
                     @ js '' end'') = None\<close>
  by (simp add: eval_scan well_formed_object_def)

text \<open>
  C3 (as amended).  When the first opening brace of the text opens a well-formed balanced
  object none of whose string literals ends with an escaped backslash, \<open>extractJSON\<close> returns
  that first object whatever follows it, a second object included: all text after the first
  object's closing brace is discarded.
\<close>

theorem extractJSON_first_object:
  assumes "LBRACE \<notin> set pre"
    and "well_formed_object obj1" and "plain_closing_quotes obj1"
    and "well_formed_object obj2"
  shows "extractJSON (pre @ obj1 @ mid @ obj2 @ post) = Some obj1"
  using assms(1,2,3) by (rule extractJSON_object)

theorem extractJSON_first_object_witness:
  \<open>LBRACE \<notin> set (js ''ab '')
   \<and> well_formed_object (js ''{"a":1}'') \<and> plain_closing_quotes (js ''{"a":1}'')
   \<and> well_formed_object (js ''{"b":2}'')
   \<and> extractJSON (js ''ab '' @ js ''{"a":1}'' @ js '' then '' @ js ''{"b":2}'' @ js ''.'')
       = Some (js ''{"a":1}'')\<close>
proof -
  have 1: \<open>LBRACE \<notin> set (js ''ab '')\<close>
    by (simp add: js_def LBRACE_def)
  have 2: \<open>well_formed_object (js ''{"a":1}'')\<close> and 4: \<open>well_formed_object (js ''{"b":2}'')\<close>
    by (simp_all add: well_formed_object_def js_def LBRACE_def RBRACE_def QUOTE_def BACKSLASH_def)
  have 3: \<open>plain_closing_quotes (js ''{"a":1}'')\<close>
    by (simp add: plain_closing_quotes_def js_def LBRACE_def RBRACE_def QUOTE_def BACKSLASH_def)
  from extractJSON_first_object [OF 1 2 3 4] 1 2 3 4 show ?thesis by blast
qed

text \<open>
  As the specification states it, the property does not hold for two balanced objects of which the first holds a string ending
  with an escaped backslash: the scanner stays inside that string across the closing brace and
  returns \<open>null\<close>, not the first object.
\<close>

theorem extractJSON_first_object_counterexample:
  \<open>well_formed_object (js ''{"a":"'' @ [BACKSLASH, BACKSLASH] @ js ''"}'')
   \<and> well_formed_object (js ''{"b":2}'')
   \<and> extractJSON ((js ''{"a":"'' @ [BACKSLASH, BACKSLASH] @ js ''"}'') @ js '' and ''
                     @ js ''{"b":2}'') = None\<close>
  by (simp add: eval_scan well_formed_object_def)

subsection \<open>The scan and the states of its loop\<close>

lemma states_shift:
  "states lit t i st (Suc n) = states lit t (Suc i) (body lit t i st) n"
  by (induction n) simp_all

lemma scan_None_iff:
  "scan lit t start i st = None \<longleftrightarrow>
     (\<forall>n. i + n < length t \<longrightarrow> states lit t i st (Suc n) \<noteq> (0, False))"
proof (induction lit t start i st rule: scan.induct)
  case (1 lit t start i st)
  let ?st' = "body lit t i st"
  show ?case
  proof (cases "i < length t")
    case False
    then show ?thesis by (subst scan.simps) simp
  next
    case True
    show ?thesis
    proof (cases "?st' = (0, False)")
      case stop: True
      have "scan lit t start i st \<noteq> None"
        using True stop by (subst scan.simps) (simp add: Let_def)
      moreover have "i + 0 < length t \<and> states lit t i st (Suc 0) = (0, False)"
        using True stop by simp
      ultimately show ?thesis by blast
    next
      case go: False
      then have go': "\<not> (\<not> snd ?st' \<and> fst ?st' = 0)"
        by (cases ?st') auto
      have eq: "scan lit t start i st = scan lit t start (i + 1) ?st'"
        using True go' by (subst scan.simps) (auto simp: Let_def)
      have IH: "scan lit t start (i + 1) ?st' = None \<longleftrightarrow>
          (\<forall>n. i + 1 + n < length t \<longrightarrow> states lit t (i + 1) ?st' (Suc n) \<noteq> (0, False))"
        using "1.IH" [OF True refl go'] .
      have sh: "states lit t (i + 1) ?st' (Suc n) = states lit t i st (Suc (Suc n))" for n
        using states_shift [of lit t i st "Suc n"] by (simp only: Suc_eq_plus1)
      have "(\<forall>n. i + 1 + n < length t \<longrightarrow> states lit t (i + 1) ?st' (Suc n) \<noteq> (0, False))
        \<longleftrightarrow> (\<forall>n. i + n < length t \<longrightarrow> states lit t i st (Suc n) \<noteq> (0, False))"
      proof
        assume a: "\<forall>n. i + 1 + n < length t \<longrightarrow> states lit t (i + 1) ?st' (Suc n) \<noteq> (0, False)"
        show "\<forall>n. i + n < length t \<longrightarrow> states lit t i st (Suc n) \<noteq> (0, False)"
        proof (intro allI impI)
          fix n assume n: "i + n < length t"
          show "states lit t i st (Suc n) \<noteq> (0, False)"
          proof (cases n)
            case 0
            then show ?thesis using go by simp
          next
            case (Suc m)
            then have "i + 1 + m < length t" using n by simp
            with a have "states lit t (i + 1) ?st' (Suc m) \<noteq> (0, False)" by blast
            then show ?thesis unfolding sh Suc .
          qed
        qed
      next
        assume a: "\<forall>n. i + n < length t \<longrightarrow> states lit t i st (Suc n) \<noteq> (0, False)"
        show "\<forall>n. i + 1 + n < length t \<longrightarrow> states lit t (i + 1) ?st' (Suc n) \<noteq> (0, False)"
        proof (intro allI impI)
          fix n assume "i + 1 + n < length t"
          then have "i + Suc n < length t" by simp
          with a have "states lit t i st (Suc (Suc n)) \<noteq> (0, False)" by blast
          then show "states lit t (i + 1) ?st' (Suc n) \<noteq> (0, False)" unfolding sh .
        qed
      qed
      with IH eq show ?thesis by simp
    qed
  qed
qed


lemma scan_Some:
  "scan lit t start i st = Some r \<Longrightarrow>
     \<exists>n. i + n < length t \<and> states lit t i st (Suc n) = (0, False)
       \<and> (\<forall>m<n. states lit t i st (Suc m) \<noteq> (0, False))
       \<and> r = slice_js t start (i + n + 1)"
proof (induction lit t start i st rule: scan.induct)
  case (1 lit t start i st)
  let ?st' = "body lit t i st"
  from "1.prems" have True: "i < length t"
    by (subst (asm) scan.simps) (simp split: if_splits)
  show ?case
  proof (cases "?st' = (0, False)")
    case stop: True
    have "r = slice_js t start (i + 0 + 1)"
      using "1.prems" True stop by (subst (asm) scan.simps) (simp add: Let_def)
    moreover have "i + 0 < length t \<and> states lit t i st (Suc 0) = (0, False)"
      using True stop by simp
    ultimately show ?thesis by blast
  next
    case go: False
    then have go': "\<not> (\<not> snd ?st' \<and> fst ?st' = 0)"
      by (cases ?st') auto
    have eq: "scan lit t start i st = scan lit t start (i + 1) ?st'"
      using True go' by (subst scan.simps) (auto simp: Let_def)
    have sh: "states lit t (i + 1) ?st' k = states lit t i st (Suc k)" for k
      using states_shift [of lit t i st k] by (simp only: Suc_eq_plus1)
    from "1.IH" [OF True refl go'] "1.prems" eq
    obtain n where n: "i + 1 + n < length t"
      and z: "states lit t (i + 1) ?st' (Suc n) = (0, False)"
      and nz: "\<forall>m<n. states lit t (i + 1) ?st' (Suc m) \<noteq> (0, False)"
      and r: "r = slice_js t start (i + 1 + n + 1)"
      by auto
    have "\<forall>m<Suc n. states lit t i st (Suc m) \<noteq> (0, False)"
    proof (intro allI impI)
      fix m assume m: "m < Suc n"
      show "states lit t i st (Suc m) \<noteq> (0, False)"
      proof (cases m)
        case 0
        then show ?thesis using go by simp
      next
        case (Suc k)
        then have "k < n" using m by simp
        with nz have "states lit t (i + 1) ?st' (Suc k) \<noteq> (0, False)" by blast
        then show ?thesis unfolding sh Suc .
      qed
    qed
    moreover have "states lit t i st (Suc (Suc n)) = (0, False)"
      using z unfolding sh .
    moreover have "i + Suc n < length t" and "r = slice_js t start (i + Suc n + 1)"
      using n r by simp_all
    ultimately show ?thesis by blast
  qed
qed

lemma body_depth_change:
  "fst (body lit t i st) \<noteq> fst st \<Longrightarrow> \<not> snd (body lit t i st)"
  by (auto simp: body_def Let_def split: if_splits)

lemma states_depth_nonzero:
  assumes "\<forall>m<N. states lit t i st (Suc m) \<noteq> (0, False)"
    and "fst st \<noteq> 0"
  shows "n \<le> N \<Longrightarrow> fst (states lit t i st n) \<noteq> 0"
proof (induction n)
  case 0
  then show ?case using assms(2) by simp
next
  case (Suc n)
  then have prev: "fst (states lit t i st n) \<noteq> 0" and lt: "n < N"
    by simp_all
  let ?s = "states lit t i st n"
  show ?case
  proof
    assume z: "fst (states lit t i st (Suc n)) = 0"
    then have "fst (body lit t (i + n) ?s) \<noteq> fst ?s" using prev by simp
    then have "\<not> snd (body lit t (i + n) ?s)" by (rule body_depth_change)
    with z have "states lit t i st (Suc n) = (0, False)"
      by (cases "body lit t (i + n) ?s") auto
    with assms(1) lt show False by blast
  qed
qed

lemma body_first_brace:
  "start < length t \<Longrightarrow> t ! start = LBRACE \<Longrightarrow> body (\<lambda>c. c) t start (0, False) = (1, False)"
  by (simp add: body_def Let_def consts_distinct)

lemma scan_state_depth_prefix:
  assumes idx: "indexOf t LBRACE = Some start"
    and a: "\<forall>m<N. scan_state t start (Suc m) \<noteq> (0, False)"
  shows "\<forall>m<N. fst (scan_state t start (Suc m)) \<noteq> 0"
proof (intro allI impI)
  fix m assume m: "m < N"
  from indexOf_Some [OF idx] have lt: "start < length t" and br: "t ! start = LBRACE"
    by simp_all
  have first: "body (\<lambda>c. c) t start (0, False) = (1, False)"
    using lt br by (rule body_first_brace)
  have sh: "scan_state t start (Suc k) = states (\<lambda>c. c) t (Suc start) (1, False) k" for k
    unfolding scan_state_def states_shift first ..
  have "\<forall>k<N - 1. states (\<lambda>c. c) t (Suc start) (1, False) (Suc k) \<noteq> (0, False)"
  proof (intro allI impI)
    fix k assume "k < N - 1"
    then have "Suc k < N" by simp
    with a have "scan_state t start (Suc (Suc k)) \<noteq> (0, False)" by blast
    then show "states (\<lambda>c. c) t (Suc start) (1, False) (Suc k) \<noteq> (0, False)"
      unfolding sh .
  qed
  moreover have "m \<le> N - 1" using m by simp
  ultimately have "fst (states (\<lambda>c. c) t (Suc start) (1, False) m) \<noteq> 0"
    using states_depth_nonzero [of "N - 1" "\<lambda>c. c" t "Suc start" "(1, False)" m] by simp
  then show "fst (scan_state t start (Suc m)) \<noteq> 0" unfolding sh .
qed

lemma extractJSON_None_iff:
  assumes idx: "indexOf t LBRACE = Some start"
  shows "extractJSON t = None \<longleftrightarrow>
     (\<forall>n. start + n < length t \<longrightarrow> fst (scan_state t start (Suc n)) \<noteq> 0)"
proof -
  have "extractJSON t = None \<longleftrightarrow>
      (\<forall>n. start + n < length t \<longrightarrow> scan_state t start (Suc n) \<noteq> (0, False))"
    by (simp add: extractJSON_def extractJSON_of_def idx scan_None_iff scan_state_def)
  also have "\<dots> \<longleftrightarrow> (\<forall>n<length t - start. scan_state t start (Suc n) \<noteq> (0, False))"
    by (simp add: less_diff_conv add.commute)
  also have "\<dots> \<longleftrightarrow> (\<forall>n<length t - start. fst (scan_state t start (Suc n)) \<noteq> 0)"
    using scan_state_depth_prefix [OF idx, of "length t - start"] by fastforce
  also have "\<dots> \<longleftrightarrow> (\<forall>n. start + n < length t \<longrightarrow> fst (scan_state t start (Suc n)) \<noteq> 0)"
    by (simp add: less_diff_conv add.commute)
  finally show ?thesis .
qed

lemma extractJSON_Some:
  assumes "extractJSON t = Some r"
  shows "\<exists>start n. indexOf t LBRACE = Some start \<and> start + n < length t
     \<and> fst (scan_state t start (Suc n)) = 0
     \<and> (\<forall>m<n. fst (scan_state t start (Suc m)) \<noteq> 0)
     \<and> r = slice_js t start (start + n + 1)"
proof -
  from assms obtain start where idx: "indexOf t LBRACE = Some start"
    and sc: "scan (\<lambda>c. c) t start start (0, False) = Some r"
    by (auto simp: extractJSON_def extractJSON_of_def split: option.splits)
  from scan_Some [OF sc] obtain n where n: "start + n < length t"
    and z: "scan_state t start (Suc n) = (0, False)"
    and nz: "\<forall>m<n. scan_state t start (Suc m) \<noteq> (0, False)"
    and r: "r = slice_js t start (start + n + 1)"
    unfolding scan_state_def by blast
  from scan_state_depth_prefix [OF idx nz] z n r idx show ?thesis
    by (intro exI [of _ start] exI [of _ n]) simp
qed

lemma run_no_closing:
  "RBRACE \<notin> set cs \<Longrightarrow> 0 < fst st \<Longrightarrow> run (\<lambda>c. c) prev cs st = None"
proof (induction cs arbitrary: prev st)
  case Nil
  then show ?case by simp
next
  case (Cons c cs)
  let ?st' = "step (\<lambda>c. c) prev c st"
  from Cons.prems have "0 < fst ?st'"
    by (auto simp: step_def Let_def)
  moreover from Cons.prems have "RBRACE \<notin> set cs" by simp
  ultimately have "run (\<lambda>c. c) (Some c) cs ?st' = None" "\<not> (\<not> snd ?st' \<and> fst ?st' = 0)"
    using Cons.IH by simp_all
  then show ?case by (simp add: Let_def)
qed

lemma extractJSON_no_closing: "RBRACE \<notin> set t \<Longrightarrow> extractJSON t = None"
proof (cases "indexOf t LBRACE")
  case None
  then show ?thesis by (simp add: extractJSON_def extractJSON_of_def)
next
  case (Some start)
  assume nr: "RBRACE \<notin> set t"
  from indexOf_Some [OF Some] have lt: "start < length t" and br: "t ! start = LBRACE"
    by simp_all
  have d: "drop start t = LBRACE # drop (Suc start) t"
    using lt br by (metis Cons_nth_drop_Suc)
  have "RBRACE \<notin> set (drop (Suc start) t)"
    using nr by (meson in_set_dropD)
  then have "run (\<lambda>c. c) (Some LBRACE) (drop (Suc start) t) (1, False) = None"
    by (rule run_no_closing) simp
  then have "run (\<lambda>c. c) (char_at t (int start - 1)) (drop start t) (0, False) = None"
    unfolding d by (simp add: step_def consts_distinct)
  then show ?thesis
    by (simp add: extractJSON_def extractJSON_of_def Some scan_run)
qed

text \<open>
  C4.  \<open>extractJSON\<close> returns \<open>null\<close> for every text without an opening brace and for
  every text without a closing brace.  For a text with an opening brace, it returns \<open>null\<close>
  exactly when the scan from the first opening brace reaches the end of the text without
  \<open>depth\<close> coming back to 0.  A result that is not \<open>null\<close> is the slice from the first
  opening brace through the first position where \<open>depth\<close> is 0 again, never a part of it.
\<close>

theorem extractJSON_not_found:
  "(LBRACE \<notin> set t \<longrightarrow> extractJSON t = None)
   \<and> (RBRACE \<notin> set t \<longrightarrow> extractJSON t = None)
   \<and> (\<forall>start. indexOf t LBRACE = Some start \<longrightarrow>
         (extractJSON t = None) =
         (\<forall>n. start + n < length t \<longrightarrow> fst (scan_state t start (Suc n)) \<noteq> 0))
   \<and> (\<forall>r. extractJSON t = Some r \<longrightarrow>
         (\<exists>start n. indexOf t LBRACE = Some start \<and> start + n < length t
            \<and> fst (scan_state t start (Suc n)) = 0
            \<and> (\<forall>m<n. fst (scan_state t start (Suc m)) \<noteq> 0)
            \<and> r = slice_js t start (start + n + 1)))"
proof (intro conjI allI impI)
  assume "LBRACE \<notin> set t"
  then have "indexOf t LBRACE = None" by (simp add: indexOf_None)
  then show "extractJSON t = None" by (simp add: extractJSON_def extractJSON_of_def)
next
  assume "RBRACE \<notin> set t"
  then show "extractJSON t = None" by (rule extractJSON_no_closing)
next
  fix start assume "indexOf t LBRACE = Some start"
  then show "(extractJSON t = None) =
      (\<forall>n. start + n < length t \<longrightarrow> fst (scan_state t start (Suc n)) \<noteq> 0)"
    by (rule extractJSON_None_iff)
next
  fix r assume "extractJSON t = Some r"
  then show "\<exists>start n. indexOf t LBRACE = Some start \<and> start + n < length t
      \<and> fst (scan_state t start (Suc n)) = 0
      \<and> (\<forall>m<n. fst (scan_state t start (Suc m)) \<noteq> 0)
      \<and> r = slice_js t start (start + n + 1)"
    by (rule extractJSON_Some)
qed

theorem extractJSON_not_found_witness:
  \<open>LBRACE \<notin> set (js ''no json'') \<and> extractJSON (js ''no json'') = None
   \<and> RBRACE \<notin> set (js ''x {"a":1'') \<and> extractJSON (js ''x {"a":1'') = None
   \<and> indexOf (js ''{"a":"}'') LBRACE = Some 0 \<and> extractJSON (js ''{"a":"}'') = None
   \<and> fst (scan_state (js ''{"a":"}'') 0 (Suc 6)) \<noteq> 0
   \<and> extractJSON (js ''a{}b'') = Some (js ''{}'')
   \<and> (\<exists>start n. indexOf (js ''a{}b'') LBRACE = Some start \<and> start + n < length (js ''a{}b'')
         \<and> fst (scan_state (js ''a{}b'') start (Suc n)) = 0
         \<and> js ''{}'' = slice_js (js ''a{}b'') start (start + n + 1))\<close>
proof -
  have 1: \<open>LBRACE \<notin> set (js ''no json'')\<close>
    by (simp add: js_def LBRACE_def)
  have 2: \<open>RBRACE \<notin> set (js ''x {"a":1'')\<close>
    by (simp add: js_def RBRACE_def)
  have 3: \<open>indexOf (js ''{"a":"}'') LBRACE = Some 0\<close>
    by (simp add: js_def LBRACE_def)
  have 4: \<open>extractJSON (js ''{"a":"}'') = None\<close>
    by (simp add: eval_scan)
  have 5: \<open>extractJSON (js ''a{}b'') = Some (js ''{}'')\<close>
    by (simp add: eval_scan)
  have 6: \<open>0 + 6 < length (js ''{"a":"}'')\<close>
    by (simp add: js_def)
  note a = extractJSON_not_found [of \<open>js ''no json''\<close>]
  note b = extractJSON_not_found [of \<open>js ''x {"a":1''\<close>]
  note c = extractJSON_not_found [of \<open>js ''{"a":"}''\<close>]
  note d = extractJSON_not_found [of \<open>js ''a{}b''\<close>]
  from a 1 have \<open>extractJSON (js ''no json'') = None\<close> by blast
  moreover from b 2 have \<open>extractJSON (js ''x {"a":1'') = None\<close> by blast
  moreover from c 3 4 6 have \<open>fst (scan_state (js ''{"a":"}'') 0 (Suc 6)) \<noteq> 0\<close> by blast
  moreover from d 5 have \<open>\<exists>start n. indexOf (js ''a{}b'') LBRACE = Some start
         \<and> start + n < length (js ''a{}b'')
         \<and> fst (scan_state (js ''a{}b'') start (Suc n)) = 0
         \<and> js ''{}'' = slice_js (js ''a{}b'') start (start + n + 1)\<close> by blast
  ultimately show ?thesis using 1 2 3 4 5 by blast
qed

lemma spec_inString_Suc:
  "spec_inString t start (Suc n) = (spec_inString t start n \<noteq> spec_toggles t (start + n))"
  by (simp add: spec_inString_def)

lemma spec_depth_Suc:
  "spec_depth t start (Suc n) =
     spec_depth t start n
     + (if \<not> spec_inString t start n \<and> t ! (start + n) = LBRACE then 1
        else if \<not> spec_inString t start n \<and> t ! (start + n) = RBRACE then - 1 else 0)"
  by (simp add: spec_depth_def consts_distinct)

lemma body_spec:
  fixes t :: jsstring
  assumes "i < length t"
  shows "body (\<lambda>c. c) t i (d, s) =
     (let s' = (s \<noteq> spec_toggles t i)
      in (if \<not> s' then (if t ! i = LBRACE then d + 1 else if t ! i = RBRACE then d - 1 else d)
          else d, s'))"
  using assms
  by (auto simp: body_def spec_toggles_def char_at_def Let_def nat_diff_distrib)

lemma scan_state_spec:
  "start + n \<le> length t \<Longrightarrow>
   scan_state t start n = (spec_depth t start n, spec_inString t start n)"
proof (induction n)
  case 0
  then show ?case by (simp add: scan_state_def spec_depth_def spec_inString_def)
next
  case (Suc n)
  then have IH: "scan_state t start n = (spec_depth t start n, spec_inString t start n)"
    and lt: "start + n < length t"
    by simp_all
  have "scan_state t start (Suc n) = body (\<lambda>c. c) t (start + n) (scan_state t start n)"
    by (simp add: scan_state_def)
  also have "\<dots> = (spec_depth t start (Suc n), spec_inString t start (Suc n))"
    unfolding IH body_spec [OF lt] spec_inString_Suc spec_depth_Suc
    by (auto simp: Let_def spec_toggles_def consts_distinct)
  finally show ?case .
qed


lemma extractJSON_spec_None:
  assumes idx: "indexOf t LBRACE = Some start"
  shows "extractJSON t = None \<longleftrightarrow> (\<forall>n. start + n < length t \<longrightarrow> \<not> spec_closed t start n)"
proof -
  have st: "scan_state t start (Suc n) \<noteq> (0, False) \<longleftrightarrow> \<not> spec_closed t start n"
    if "start + n < length t" for n
    using that scan_state_spec [of start "Suc n" t] by (auto simp: spec_closed_def)
  have "extractJSON t = None \<longleftrightarrow>
      (\<forall>n. start + n < length t \<longrightarrow> scan_state t start (Suc n) \<noteq> (0, False))"
    by (simp add: extractJSON_def extractJSON_of_def idx scan_None_iff scan_state_def)
  also have "\<dots> \<longleftrightarrow> (\<forall>n. start + n < length t \<longrightarrow> \<not> spec_closed t start n)"
    using st by blast
  finally show ?thesis .
qed

lemma extractJSON_spec_Some:
  assumes idx: "indexOf t LBRACE = Some start"
  shows "extractJSON t = Some r \<longleftrightarrow>
     (\<exists>n. start + n < length t \<and> spec_closed t start n
        \<and> (\<forall>m<n. \<not> spec_closed t start m) \<and> r = slice_js t start (start + n + 1))"
proof
  assume "extractJSON t = Some r"
  then have sc: "scan (\<lambda>c. c) t start start (0, False) = Some r"
    by (simp add: extractJSON_def extractJSON_of_def idx)
  from scan_Some [OF sc] obtain n where n: "start + n < length t"
    and z: "scan_state t start (Suc n) = (0, False)"
    and nz: "\<forall>m<n. scan_state t start (Suc m) \<noteq> (0, False)"
    and r: "r = slice_js t start (start + n + 1)"
    unfolding scan_state_def by blast
  have "spec_closed t start n"
    using z n scan_state_spec [of start "Suc n" t] by (simp add: spec_closed_def)
  moreover have "\<forall>m<n. \<not> spec_closed t start m"
  proof (intro allI impI)
    fix m assume m: "m < n"
    then have "start + Suc m \<le> length t" using n by simp
    from scan_state_spec [OF this] nz m show "\<not> spec_closed t start m"
      by (auto simp: spec_closed_def)
  qed
  ultimately show "\<exists>n. start + n < length t \<and> spec_closed t start n
        \<and> (\<forall>m<n. \<not> spec_closed t start m) \<and> r = slice_js t start (start + n + 1)"
    using n r by blast
next
  assume "\<exists>n. start + n < length t \<and> spec_closed t start n
        \<and> (\<forall>m<n. \<not> spec_closed t start m) \<and> r = slice_js t start (start + n + 1)"
  then obtain n where n: "start + n < length t" and c: "spec_closed t start n"
    and first: "\<forall>m<n. \<not> spec_closed t start m"
    and r: "r = slice_js t start (start + n + 1)"
    by blast
  from n c have "extractJSON t \<noteq> None"
    unfolding extractJSON_spec_None [OF idx] by blast
  then obtain r' where r': "extractJSON t = Some r'" by blast
  then have sc: "scan (\<lambda>c. c) t start start (0, False) = Some r'"
    by (simp add: extractJSON_def extractJSON_of_def idx)
  from scan_Some [OF sc] obtain k where k: "start + k < length t"
    and z: "scan_state t start (Suc k) = (0, False)"
    and nz: "\<forall>m<k. scan_state t start (Suc m) \<noteq> (0, False)"
    and rk: "r' = slice_js t start (start + k + 1)"
    unfolding scan_state_def by blast
  have ck: "spec_closed t start k"
    using z k scan_state_spec [of start "Suc k" t] by (simp add: spec_closed_def)
  have "scan_state t start (Suc n) = (0, False)"
    using c n scan_state_spec [of start "Suc n" t] by (simp add: spec_closed_def)
  with nz have "\<not> n < k" by blast
  moreover from first ck have "\<not> k < n" by blast
  ultimately have "k = n" by simp
  with r rk r' show "extractJSON t = Some r" by simp
qed

text \<open>
  C5.  During the scan that \<open>extractJSON\<close> runs from the first opening brace, the values of
  \<open>depth\<close> and \<open>inString\<close> after each code unit are those of the rule in the
  specification's words: \<open>inString\<close> is toggled by exactly the quotes whose preceding code
  unit is not a backslash, so never by a quote after a backslash, whatever stands before that
  backslash, and \<open>depth\<close> changes only on a brace read while \<open>inString\<close> is false.  The
  result of \<open>extractJSON\<close> is fixed by these values: it is the slice through the first code
  unit after which \<open>depth\<close> is 0 outside a string, and \<open>null\<close> when there is none.
\<close>

theorem scan_toggle_rule:
  assumes "indexOf t LBRACE = Some start"
  shows "(\<forall>n. start + n \<le> length t \<longrightarrow>
            scan_state t start n = (spec_depth t start n, spec_inString t start n))
    \<and> (\<forall>n. start + n < length t \<longrightarrow>
            snd (scan_state t start (Suc n))
              = (snd (scan_state t start n) \<noteq> spec_toggles t (start + n))
            \<and> (fst (scan_state t start (Suc n)) \<noteq> fst (scan_state t start n) \<longrightarrow>
                 \<not> snd (scan_state t start n) \<and> \<not> snd (scan_state t start (Suc n))
                 \<and> (t ! (start + n) = LBRACE \<or> t ! (start + n) = RBRACE)))
    \<and> (\<forall>r. (extractJSON t = Some r) =
            (\<exists>n. start + n < length t \<and> spec_closed t start n
               \<and> (\<forall>m<n. \<not> spec_closed t start m)
               \<and> r = slice_js t start (start + n + 1)))
    \<and> ((extractJSON t = None) = (\<forall>n. start + n < length t \<longrightarrow> \<not> spec_closed t start n))"
proof (intro conjI allI impI)
  fix n assume "start + n \<le> length t"
  then show "scan_state t start n = (spec_depth t start n, spec_inString t start n)"
    by (rule scan_state_spec)
next
  fix n assume n: "start + n < length t"
  then have a: "scan_state t start n = (spec_depth t start n, spec_inString t start n)"
    and b: "scan_state t start (Suc n)
        = (spec_depth t start (Suc n), spec_inString t start (Suc n))"
    by (simp_all add: scan_state_spec)
  show "snd (scan_state t start (Suc n))
      = (snd (scan_state t start n) \<noteq> spec_toggles t (start + n))"
    unfolding a b by (simp add: spec_inString_Suc)
  assume "fst (scan_state t start (Suc n)) \<noteq> fst (scan_state t start n)"
  then show "\<not> snd (scan_state t start n)" "\<not> snd (scan_state t start (Suc n))"
    "t ! (start + n) = LBRACE \<or> t ! (start + n) = RBRACE"
    unfolding a b
    by (auto simp: spec_inString_Suc spec_depth_Suc spec_toggles_def consts_distinct
        split: if_splits)
next
  fix r show "(extractJSON t = Some r) =
            (\<exists>n. start + n < length t \<and> spec_closed t start n
               \<and> (\<forall>m<n. \<not> spec_closed t start m)
               \<and> r = slice_js t start (start + n + 1))"
    using assms by (rule extractJSON_spec_Some)
next
  show "(extractJSON t = None) = (\<forall>n. start + n < length t \<longrightarrow> \<not> spec_closed t start n)"
    using assms by (rule extractJSON_spec_None)
qed

theorem scan_toggle_rule_witness:
  \<open>indexOf (js ''{"a'' @ [BACKSLASH, BACKSLASH] @ js ''"}"}'') LBRACE = Some 0
   \<and> (js ''{"a'' @ [BACKSLASH, BACKSLASH] @ js ''"}"}'') ! 5 = QUOTE
   \<and> (js ''{"a'' @ [BACKSLASH, BACKSLASH] @ js ''"}"}'') ! 4 = BACKSLASH
   \<and> (js ''{"a'' @ [BACKSLASH, BACKSLASH] @ js ''"}"}'') ! 3 = BACKSLASH
   \<and> \<not> spec_toggles (js ''{"a'' @ [BACKSLASH, BACKSLASH] @ js ''"}"}'') 5
   \<and> snd (scan_state (js ''{"a'' @ [BACKSLASH, BACKSLASH] @ js ''"}"}'') 0 5)
   \<and> snd (scan_state (js ''{"a'' @ [BACKSLASH, BACKSLASH] @ js ''"}"}'') 0 6)
   \<and> fst (scan_state (js ''{"a'' @ [BACKSLASH, BACKSLASH] @ js ''"}"}'') 0 7) = 1
   \<and> extractJSON (js ''{"a'' @ [BACKSLASH, BACKSLASH] @ js ''"}"}'')
       = Some (js ''{"a'' @ [BACKSLASH, BACKSLASH] @ js ''"}"}'')
   \<and> (\<exists>n. 0 + n < length (js ''{"a'' @ [BACKSLASH, BACKSLASH] @ js ''"}"}'')
         \<and> spec_closed (js ''{"a'' @ [BACKSLASH, BACKSLASH] @ js ''"}"}'') 0 n
         \<and> js ''{"a'' @ [BACKSLASH, BACKSLASH] @ js ''"}"}''
             = slice_js (js ''{"a'' @ [BACKSLASH, BACKSLASH] @ js ''"}"}'') 0 (0 + n + 1))\<close>
proof -
  let ?t = \<open>js ''{"a'' @ [BACKSLASH, BACKSLASH] @ js ''"}"}''\<close>
  have idx: "indexOf ?t LBRACE = Some 0"
    by (simp add: js_def LBRACE_def)
  have q: "?t ! 5 = QUOTE" and b: "?t ! 4 = BACKSLASH" and b': "?t ! 3 = BACKSLASH"
    by (simp_all add: js_def QUOTE_def BACKSLASH_def)
  have nt: "\<not> spec_toggles ?t (0 + 5)"
    by (simp add: spec_toggles_def js_def QUOTE_def BACKSLASH_def)
  have s5: "spec_inString ?t 0 5"
    by code_simp
  have d6: "spec_depth ?t 0 6 = 1"
    by code_simp
  have ex: "extractJSON ?t = Some ?t"
    by (simp add: eval_scan)
  have l5: "0 + 5 < length ?t" and l6: "0 + 6 < length ?t" and l5': "0 + 5 \<le> length ?t"
    and l6': "0 + 6 \<le> length ?t"
    by (simp_all add: js_def)
  have n6: "Suc 5 = (6::nat)" and n7: "Suc 6 = (7::nat)"
    by simp_all
  note th = scan_toggle_rule [OF idx]
  note p1 = th [THEN conjunct1, rule_format]
  note p2 = th [THEN conjunct2, THEN conjunct1, rule_format]
  note p3 = th [THEN conjunct2, THEN conjunct2, THEN conjunct1, rule_format]
  have a: "snd (scan_state ?t 0 5)"
    unfolding p1 [OF l5'] using s5 by simp
  have c: "snd (scan_state ?t 0 6)"
    using p2 [OF l5, THEN conjunct1] a nt unfolding n6 by blast
  have "fst (scan_state ?t 0 6) = 1"
    unfolding p1 [OF l6'] using d6 by simp
  moreover have "fst (scan_state ?t 0 7) = fst (scan_state ?t 0 6)"
    using p2 [OF l6, THEN conjunct2] c unfolding n7 by blast
  ultimately have d: "fst (scan_state ?t 0 7) = 1" by simp
  from ex have e: "\<exists>n. 0 + n < length ?t \<and> spec_closed ?t 0 n
      \<and> ?t = slice_js ?t 0 (0 + n + 1)"
    unfolding p3 by blast
  from nt have nt': "\<not> spec_toggles ?t 5" by simp
  from idx q b b' nt' a c d ex e show ?thesis by blast
qed

section \<open>Properties of the input sanitizer\<close>

lemma trim_decomp:
  "\<exists>a b. s = a @ trim s @ b \<and> (\<forall>c\<in>set a. is_whitespace c) \<and> (\<forall>c\<in>set b. is_whitespace c)"
proof -
  let ?u = "dropWhile is_whitespace s"
  let ?a = "takeWhile is_whitespace s"
  let ?b = "rev (takeWhile is_whitespace (rev ?u))"
  have "trim s @ ?b
      = rev (takeWhile is_whitespace (rev ?u) @ dropWhile is_whitespace (rev ?u))"
    by (simp only: trim_def rev_append)
  also have "\<dots> = ?u"
    by (simp only: takeWhile_dropWhile_id rev_rev_ident)
  finally have u: "?u = trim s @ ?b" by (rule sym)
  have "s = ?a @ ?u" by simp
  with u have "s = ?a @ trim s @ ?b" by simp
  moreover have "\<forall>c\<in>set ?a. is_whitespace c"
    by (auto dest: set_takeWhileD)
  moreover have "\<forall>c\<in>set ?b. is_whitespace c"
    by (auto dest: set_takeWhileD)
  ultimately show ?thesis by blast
qed

lemma trim_ends:
  assumes "trim s \<noteq> []"
  shows "\<not> is_whitespace (hd (trim s)) \<and> \<not> is_whitespace (last (trim s))"
proof -
  let ?u = "dropWhile is_whitespace s"
  let ?v = "dropWhile is_whitespace (rev ?u)"
  from assms have v: "?v \<noteq> []" by (simp add: trim_def)
  then have u: "?u \<noteq> []" by (cases "?u = []") simp_all
  have "last (trim s) = hd ?v"
    using v by (simp add: trim_def last_rev)
  moreover have "\<not> is_whitespace (hd ?v)"
    using v by (rule hd_dropWhile)
  moreover have "hd (trim s) = last ?v"
    using v by (simp add: trim_def hd_rev)
  moreover have "last ?v = last (rev ?u)"
    using v by (metis last_appendR takeWhile_dropWhile_id)
  moreover have "last (rev ?u) = hd ?u"
    using u by (simp add: last_rev)
  moreover have "\<not> is_whitespace (hd ?u)"
    using u by (rule hd_dropWhile)
  ultimately show ?thesis by simp
qed

text \<open>
  C8.  On a string, \<open>sanitizeInput\<close> returns the string trimmed and then cut to its first 800
  code units; on every other value, and on a string that trims to nothing, it returns the
  empty string; the result is never longer than 800.  Trimming removes exactly a run of
  whitespace at each end: what is left neither starts nor ends with whitespace.
\<close>

theorem sanitizeInput_spec:
  "sanitizeInput v = (case v of JStr s \<Rightarrow> take 800 (trim s) | _ \<Rightarrow> [])
   \<and> length (sanitizeInput v) \<le> 800
   \<and> (\<forall>s. v = JStr s \<longrightarrow>
         (trim s = [] \<longrightarrow> sanitizeInput v = [])
         \<and> (\<exists>a b. s = a @ trim s @ b
               \<and> (\<forall>c\<in>set a. is_whitespace c) \<and> (\<forall>c\<in>set b. is_whitespace c))
         \<and> (trim s \<noteq> [] \<longrightarrow>
               \<not> is_whitespace (hd (trim s)) \<and> \<not> is_whitespace (last (trim s))))"
proof -
  have eq: "sanitizeInput v = (case v of JStr s \<Rightarrow> take 800 (trim s) | _ \<Rightarrow> [])"
    by (cases v) (auto simp: sanitizeInput_def slice_js_def trim_def)
  then have "length (sanitizeInput v) \<le> 800"
    by (cases v) simp_all
  moreover have "v = JStr s \<longrightarrow> trim s = [] \<longrightarrow> sanitizeInput v = []" for s
    using eq by auto
  ultimately show ?thesis
    using eq trim_decomp trim_ends by blast
qed

theorem sanitizeInput_spec_witness:
  "sanitizeInput (JStr (js ''  a red fox  '')) = js ''a red fox''
   \<and> sanitizeInput (JNum 5) = []
   \<and> trim (js ''   '') = [] \<and> sanitizeInput (JStr (js ''   '')) = []
   \<and> length (sanitizeInput (JStr (replicate 900 0x61))) \<le> 800"
proof -
  have t1: "take 800 (trim (js ''  a red fox  '')) = js ''a red fox''"
    by (simp add: trim_def is_whitespace_def js_def)
  have t2: "trim (js ''   '') = []"
    by (simp add: trim_def is_whitespace_def js_def)
  from sanitizeInput_spec [of "JStr (js ''  a red fox  '')"] t1
  have "sanitizeInput (JStr (js ''  a red fox  '')) = js ''a red fox''" by simp
  moreover from sanitizeInput_spec [of "JNum 5"]
  have "sanitizeInput (JNum 5) = []" by simp
  moreover from sanitizeInput_spec [of "JStr (js ''   '')"] t2
  have "sanitizeInput (JStr (js ''   '')) = []" by blast
  moreover from sanitizeInput_spec [of "JStr (replicate 900 0x61)"]
  have "length (sanitizeInput (JStr (replicate 900 0x61))) \<le> 800" by blast
  ultimately show ?thesis using t2 by blast
qed

section \<open>Properties of the schema validator\<close>

lemma validate_properties_ok:
  "validate_properties props path data = [] \<Longrightarrow> (k, sch) \<in> set props \<Longrightarrow>
   get_prop data k \<noteq> JUndefined \<Longrightarrow> validate sch (path @ [k]) (get_prop data k) = []"
  by (induction props) (auto split: if_splits list.splits)

lemma validate_ok:
  assumes "validate (Schema ts props req) path data = []"
  shows "list_ex (\<lambda>t. has_type t data) ts"
    and "has_type TObject data \<Longrightarrow> k \<in> set req \<Longrightarrow> get_prop data k \<noteq> JUndefined"
    and "has_type TObject data \<Longrightarrow> validate_properties props path data = []"
  using assms by (auto simp: find_None_iff split: if_splits option.splits)

lemma validate_missing:
  assumes "list_ex (\<lambda>t. has_type t data) ts" and "has_type TObject data"
    and "List.find (\<lambda>k. get_prop data k = JUndefined) req = Some k"
  shows "validate (Schema ts props req) path data = [MissingProperty path k]"
  using assms by simp

lemma validateJSON_accepts:
  assumes "validateJSON data = []"
  shows "\<exists>kvs ps. data = JObj kvs \<and> get_prop data (js ''params'') = JObj ps
     \<and> get_prop data (js ''prompt'') \<noteq> JUndefined"
proof -
  from assms have v: "validate (Schema [TObject]
       [(js ''prompt'', Schema [TString] [] []),
        (js ''negative_prompt'', Schema [TString] [] []),
        (js ''style'', Schema [TString] [] []),
        (js ''lighting'', Schema [TString] [] []),
        (js ''camera'', Schema [TString] [] []),
        (js ''details'', details_schema),
        (js ''params'', params_schema)]
       [js ''prompt'', js ''params'']) [] data = []"
    by (simp only: validateJSON_def jsonSchema_def)
  from validate_ok(1) [OF v] have obj: "has_type TObject data" by simp
  then obtain kvs where d: "data = JObj kvs" by (cases data) simp_all
  from validate_ok(2) [OF v obj] have req: "get_prop data (js ''prompt'') \<noteq> JUndefined"
      "get_prop data (js ''params'') \<noteq> JUndefined"
    by simp_all
  from validate_ok(3) [OF v obj] have "validate params_schema ([] @ [js ''params''])
      (get_prop data (js ''params'')) = []"
    by (rule validate_properties_ok) (simp_all add: req)
  then have "list_ex (\<lambda>t. has_type t (get_prop data (js ''params''))) [TObject]"
    unfolding params_schema_def by (rule validate_ok(1))
  then have "has_type TObject (get_prop data (js ''params''))"
    by simp
  then obtain ps where "get_prop data (js ''params'') = JObj ps"
    by (cases "get_prop data (js ''params'')") simp_all
  with d req show ?thesis by blast
qed


lemma jsonSchema_unfold:
  "validateJSON data = validate (Schema [TObject]
       [(js ''prompt'', Schema [TString] [] []),
        (js ''negative_prompt'', Schema [TString] [] []),
        (js ''style'', Schema [TString] [] []),
        (js ''lighting'', Schema [TString] [] []),
        (js ''camera'', Schema [TString] [] []),
        (js ''details'', details_schema),
        (js ''params'', params_schema)]
       [js ''prompt'', js ''params'']) [] data"
  by (simp only: validateJSON_def jsonSchema_def)

lemma details_without_subject:
  assumes "validateJSON (JObj kvs) = []"
    and "get_prop (JObj kvs) (js ''details'') = JObj d"
    and "get_prop (JObj d) (js ''subject'') = JUndefined"
  shows False
proof -
  note v = assms(1) [unfolded jsonSchema_unfold]
  have obj: "has_type TObject (JObj kvs)" by simp
  from validate_ok(3) [OF v obj]
  have "validate details_schema ([] @ [js ''details'']) (get_prop (JObj kvs) (js ''details'')) = []"
    by (rule validate_properties_ok) (use assms(2) in simp_all)
  moreover have "validate details_schema ([] @ [js ''details'']) (JObj d)
      = [MissingProperty ([] @ [js ''details'']) (js ''subject'')]"
    unfolding details_schema_def using assms(3) by (intro validate_missing) simp_all
  ultimately show False using assms(2) by simp
qed

lemmas eval_validate = validateJSON_def jsonSchema_def details_schema_def params_schema_def js_def

text \<open>
  C6.  An object without \<open>prompt\<close> is rejected with the violation that names \<open>prompt\<close>
  as the missing property; an object with \<open>prompt\<close> but without \<open>params\<close> is rejected with the
  violation that names \<open>params\<close>; an object whose \<open>details\<close> is an object without
  \<open>subject\<close> is rejected.
\<close>

theorem validateJSON_rejects:
  "(get_prop (JObj kvs) (js ''prompt'') = JUndefined \<longrightarrow>
      validateJSON (JObj kvs) = [MissingProperty [] (js ''prompt'')])
   \<and> (get_prop (JObj kvs) (js ''prompt'') \<noteq> JUndefined
        \<and> get_prop (JObj kvs) (js ''params'') = JUndefined \<longrightarrow>
      validateJSON (JObj kvs) = [MissingProperty [] (js ''params'')])
   \<and> (\<forall>d. get_prop (JObj kvs) (js ''details'') = JObj d
          \<and> get_prop (JObj d) (js ''subject'') = JUndefined \<longrightarrow>
      validateJSON (JObj kvs) \<noteq> [])"
proof (intro conjI allI impI)
  assume "get_prop (JObj kvs) (js ''prompt'') = JUndefined"
  then show "validateJSON (JObj kvs) = [MissingProperty [] (js ''prompt'')]"
    unfolding jsonSchema_unfold by (intro validate_missing) simp_all
next
  assume "get_prop (JObj kvs) (js ''prompt'') \<noteq> JUndefined
      \<and> get_prop (JObj kvs) (js ''params'') = JUndefined"
  then show "validateJSON (JObj kvs) = [MissingProperty [] (js ''params'')]"
    unfolding jsonSchema_unfold by (intro validate_missing) simp_all
next
  fix d assume "get_prop (JObj kvs) (js ''details'') = JObj d
      \<and> get_prop (JObj d) (js ''subject'') = JUndefined"
  then show "validateJSON (JObj kvs) \<noteq> []"
    using details_without_subject by blast
qed

theorem validateJSON_rejects_witness:
  "get_prop (JObj [(js ''params'', JObj [])]) (js ''prompt'') = JUndefined
   \<and> validateJSON (JObj [(js ''params'', JObj [])]) = [MissingProperty [] (js ''prompt'')]
   \<and> get_prop (JObj [(js ''prompt'', JStr (js ''x''))]) (js ''prompt'') \<noteq> JUndefined
   \<and> get_prop (JObj [(js ''prompt'', JStr (js ''x''))]) (js ''params'') = JUndefined
   \<and> validateJSON (JObj [(js ''prompt'', JStr (js ''x''))]) = [MissingProperty [] (js ''params'')]
   \<and> get_prop (JObj [(js ''prompt'', JStr (js ''x'')),
                       (js ''details'', JObj [(js ''background'', JStr (js ''sky''))]),
                       (js ''params'', JObj [])]) (js ''details'')
       = JObj [(js ''background'', JStr (js ''sky''))]
   \<and> get_prop (JObj [(js ''background'', JStr (js ''sky''))]) (js ''subject'') = JUndefined
   \<and> validateJSON (JObj [(js ''prompt'', JStr (js ''x'')),
                          (js ''details'', JObj [(js ''background'', JStr (js ''sky''))]),
                          (js ''params'', JObj [])]) \<noteq> []"
proof -
  have 1: "get_prop (JObj [(js ''params'', JObj [])]) (js ''prompt'') = JUndefined"
    by (simp add: js_def)
  have 2: "get_prop (JObj [(js ''prompt'', JStr (js ''x''))]) (js ''prompt'') \<noteq> JUndefined"
    and 3: "get_prop (JObj [(js ''prompt'', JStr (js ''x''))]) (js ''params'') = JUndefined"
    by (simp_all add: js_def)
  have 4: "get_prop (JObj [(js ''prompt'', JStr (js ''x'')),
                       (js ''details'', JObj [(js ''background'', JStr (js ''sky''))]),
                       (js ''params'', JObj [])]) (js ''details'')
       = JObj [(js ''background'', JStr (js ''sky''))]"
    and 5: "get_prop (JObj [(js ''background'', JStr (js ''sky''))]) (js ''subject'') = JUndefined"
    by (simp_all add: js_def)
  note a = validateJSON_rejects [of "[(js ''params'', JObj [])]"]
  note b = validateJSON_rejects [of "[(js ''prompt'', JStr (js ''x''))]"]
  note c = validateJSON_rejects [of "[(js ''prompt'', JStr (js ''x'')),
                       (js ''details'', JObj [(js ''background'', JStr (js ''sky''))]),
                       (js ''params'', JObj [])]"]
  from a 1 have "validateJSON (JObj [(js ''params'', JObj [])]) = [MissingProperty [] (js ''prompt'')]"
    by blast
  moreover from b 2 3
  have "validateJSON (JObj [(js ''prompt'', JStr (js ''x''))]) = [MissingProperty [] (js ''params'')]"
    by blast
  moreover from c 4 5
  have "validateJSON (JObj [(js ''prompt'', JStr (js ''x'')),
                          (js ''details'', JObj [(js ''background'', JStr (js ''sky''))]),
                          (js ''params'', JObj [])]) \<noteq> []"
    by blast
  ultimately show ?thesis using 1 2 3 4 5 by blast
qed

section \<open>Properties of the request handler\<close>

lemma respond_status [simp]:
  "status (sent (respond code p calls)) = code"
  "payload (sent (respond code p calls)) = p"
  "provider_calls (respond code p calls) = calls"
  by (simp_all add: respond_def)

lemma server_error_status [simp]: "status (sent (server_error calls)) = 500"
  by (simp add: server_error_def)

lemma enforce_engine_validated:
  assumes "validateJSON obj = []"
  shows "\<exists>kvs ps. obj = JObj kvs \<and> get_prop obj (js ''params'') = JObj ps
     \<and> enforce_engine obj E
         = Some (JObj (AList.update (js ''params'')
                         (JObj (AList.update (js ''engine'') E ps)) kvs))"
proof -
  from validateJSON_accepts [OF assms] obtain kvs ps
    where "obj = JObj kvs" and "get_prop obj (js ''params'') = JObj ps"
    by blast
  then show ?thesis by (simp add: enforce_engine_def)
qed

lemma get_prop_update:
  "get_prop (JObj (AList.update k v kvs)) k' = (if k' = k then v else get_prop (JObj kvs) k')"
  by (simp add: update_conv')

lemma validate_and_enforce_200:
  assumes "status (sent (validate_and_enforce obj E calls)) = 200"
  shows "validateJSON obj = []"
  using assms by (auto simp: validate_and_enforce_def Let_def split: if_splits option.splits)

lemma handle_reply_200:
  assumes "status (sent (handle_reply e data E calls)) = 200"
  shows "\<exists>obj. handle_reply e data E calls = validate_and_enforce obj E calls"
  using assms
  by (auto simp: handle_reply_def Let_def split: if_splits option.splits)

lemma call_provider_200:
  assumes "status (sent (call_provider e userPrompt E engineText)) = 200"
  shows "\<exists>obj calls. call_provider e userPrompt E engineText = validate_and_enforce obj E calls"
proof -
  from assms obtain data calls
    where "call_provider e userPrompt E engineText = handle_reply e data E calls"
    by (auto simp: call_provider_def Let_def split: if_splits option.splits fetch_result.splits)
  with assms handle_reply_200 [of e data E calls] show ?thesis by auto
qed

lemma convert_200:
  assumes "status (sent (convert e reqBody)) = 200"
  shows "\<exists>obj calls. validateJSON obj = []
     \<and> convert e reqBody
         = validate_and_enforce obj
             (js_or (get_prop reqBody (js ''engine'')) (JStr (js ''stable''))) calls"
proof -
  let ?E = "js_or (get_prop reqBody (js ''engine'')) (JStr (js ''stable''))"
  from assms obtain userPrompt engineText
    where "convert e reqBody = call_provider e userPrompt ?E engineText"
    by (auto simp: convert_def Let_def split: if_splits option.splits)
  with assms call_provider_200 [of e userPrompt ?E engineText]
  obtain obj calls where c: "convert e reqBody = validate_and_enforce obj ?E calls"
    by auto
  with assms validate_and_enforce_200 [of obj ?E calls] show ?thesis by auto
qed

lemma validate_and_enforce_result:
  assumes "validateJSON obj = []"
  shows "\<exists>r. enforce_engine obj E = Some r
     \<and> validate_and_enforce obj E calls = respond 200 (OkResult r) calls
     \<and> get_prop (get_prop r (js ''params'')) (js ''engine'') = E
     \<and> (\<forall>k. k \<noteq> js ''params'' \<longrightarrow> get_prop r k = get_prop obj k)
     \<and> (\<forall>k. k \<noteq> js ''engine'' \<longrightarrow>
           get_prop (get_prop r (js ''params'')) k = get_prop (get_prop obj (js ''params'')) k)"
proof -
  from enforce_engine_validated [OF assms, of E] obtain kvs ps
    where obj: "obj = JObj kvs" and ps: "get_prop obj (js ''params'') = JObj ps"
      and r: "enforce_engine obj E
         = Some (JObj (AList.update (js ''params'')
                         (JObj (AList.update (js ''engine'') E ps)) kvs))"
    by blast
  let ?r = "JObj (AList.update (js ''params'') (JObj (AList.update (js ''engine'') E ps)) kvs)"
  have "validate_and_enforce obj E calls = respond 200 (OkResult ?r) calls"
    using assms r by (simp add: validate_and_enforce_def)
  moreover have "get_prop (get_prop ?r (js ''params'')) (js ''engine'') = E"
    by (simp add: get_prop_update del: get_prop.simps)
  moreover have "\<forall>k. k \<noteq> js ''params'' \<longrightarrow> get_prop ?r k = get_prop obj k"
    by (simp add: get_prop_update obj del: get_prop.simps)
  moreover have "\<forall>k. k \<noteq> js ''engine'' \<longrightarrow>
      get_prop (get_prop ?r (js ''params'')) k = get_prop (get_prop obj (js ''params'')) k"
    using ps by (simp add: get_prop_update obj del: get_prop.simps)
  ultimately show ?thesis using r by blast
qed

lemmas eval_convert = convert_def member_def nullish_def js_or_def sanitizeInput_def trim_def
  is_whitespace_def call_provider_def handle_reply_def opt_member_def sample_env_def
  reply_body_def json_escape_def sample_content_def sample_candidate_def sample_object_def
  Let_def

text \<open>
  C2.  For every parsed object that passes validation and every engine preference \<open>E\<close>, the
  enforcement step succeeds and the object it returns has \<open>params.engine\<close> equal to \<open>E\<close>,
  whatever \<open>params.engine\<close> was (or was not) before; nothing else in the object changes.
  Hence every completed request (status 200) returns a result whose \<open>params.engine\<close> is the
  preference the server accepted, \<open>req.body.engine || "stable"\<close>.
\<close>

theorem engine_override:
  "(validateJSON obj = [] \<longrightarrow>
      (\<exists>r. enforce_engine obj E = Some r
         \<and> validate_and_enforce obj E calls = respond 200 (OkResult r) calls
         \<and> get_prop (get_prop r (js ''params'')) (js ''engine'') = E
         \<and> (\<forall>k. k \<noteq> js ''params'' \<longrightarrow> get_prop r k = get_prop obj k)
         \<and> (\<forall>k. k \<noteq> js ''engine'' \<longrightarrow>
               get_prop (get_prop r (js ''params'')) k
                 = get_prop (get_prop obj (js ''params'')) k)))
   \<and> (status (sent (convert e reqBody)) = 200 \<longrightarrow>
      (\<exists>r. payload (sent (convert e reqBody)) = OkResult r
         \<and> get_prop (get_prop r (js ''params'')) (js ''engine'')
             = js_or (get_prop reqBody (js ''engine'')) (JStr (js ''stable''))))"
proof (intro conjI impI)
  assume "validateJSON obj = []"
  then show "\<exists>r. enforce_engine obj E = Some r
         \<and> validate_and_enforce obj E calls = respond 200 (OkResult r) calls
         \<and> get_prop (get_prop r (js ''params'')) (js ''engine'') = E
         \<and> (\<forall>k. k \<noteq> js ''params'' \<longrightarrow> get_prop r k = get_prop obj k)
         \<and> (\<forall>k. k \<noteq> js ''engine'' \<longrightarrow>
               get_prop (get_prop r (js ''params'')) k
                 = get_prop (get_prop obj (js ''params'')) k)"
    by (rule validate_and_enforce_result)
next
  let ?E = "js_or (get_prop reqBody (js ''engine'')) (JStr (js ''stable''))"
  assume "status (sent (convert e reqBody)) = 200"
  from convert_200 [OF this] obtain obj calls where v: "validateJSON obj = []"
    and c: "convert e reqBody = validate_and_enforce obj ?E calls"
    by blast
  from validate_and_enforce_result [OF v, of ?E calls] c
  show "\<exists>r. payload (sent (convert e reqBody)) = OkResult r
         \<and> get_prop (get_prop r (js ''params'')) (js ''engine'') = ?E"
    by auto
qed

theorem engine_override_witness:
  "validateJSON sample_object = []
   \<and> (\<exists>r. enforce_engine sample_object (JStr (js ''mid'')) = Some r
         \<and> get_prop (get_prop r (js ''params'')) (js ''engine'') = JStr (js ''mid''))
   \<and> status (sent (convert (sample_env sample_content sample_candidate sample_object)
         (JObj [(js ''prompt'', JStr (js ''a fox'')), (js ''engine'', JStr (js ''mid''))]))) = 200
   \<and> (\<exists>r. payload (sent (convert (sample_env sample_content sample_candidate sample_object)
         (JObj [(js ''prompt'', JStr (js ''a fox'')), (js ''engine'', JStr (js ''mid''))])))
           = OkResult r
         \<and> get_prop (get_prop r (js ''params'')) (js ''engine'') = JStr (js ''mid''))"
proof -
  let ?e = "sample_env sample_content sample_candidate sample_object"
  let ?b = "JObj [(js ''prompt'', JStr (js ''a fox'')), (js ''engine'', JStr (js ''mid''))]"
  have v: "validateJSON sample_object = []"
    by (simp add: eval_validate sample_object_def)
  have c: "convert ?e ?b = validate_and_enforce sample_object (JStr (js ''mid''))
      [\<lparr>authorization = JStr (js ''sk-test''), user_prompt = js ''a fox'', engine = js ''mid''\<rparr>]"
    by (simp add: eval_convert eval_scan)
  have st: "status (sent (convert ?e ?b)) = 200"
    unfolding c using v by (simp add: validate_and_enforce_def enforce_engine_def sample_object_def js_def)
  have E: "js_or (get_prop ?b (js ''engine'')) (JStr (js ''stable'')) = JStr (js ''mid'')"
    by (simp add: js_or_def js_def)
  from engine_override [of sample_object "JStr (js ''mid'')" "[]" ?e ?b] v st
  show ?thesis unfolding E by blast
qed

text \<open>
  C10.  When the request body has no \<open>engine\<close>, or a falsy one, every completed request
  returns a result whose \<open>params.engine\<close> is \<open>"stable"\<close>.
\<close>

theorem engine_defaults_to_stable:
  assumes "\<not> truthy (get_prop reqBody (js ''engine''))"
    and "status (sent (convert e reqBody)) = 200"
  shows "\<exists>r. payload (sent (convert e reqBody)) = OkResult r
     \<and> get_prop (get_prop r (js ''params'')) (js ''engine'') = JStr (js ''stable'')"
proof -
  let ?E = "js_or (get_prop reqBody (js ''engine'')) (JStr (js ''stable''))"
  from convert_200 [OF assms(2)] obtain obj calls where v: "validateJSON obj = []"
    and c: "convert e reqBody = validate_and_enforce obj ?E calls"
    by blast
  have "?E = JStr (js ''stable'')"
    using assms(1) by (simp add: js_or_def)
  with validate_and_enforce_result [OF v, of ?E calls] c show ?thesis
    by auto
qed

theorem engine_defaults_to_stable_witness:
  "\<not> truthy (get_prop (JObj [(js ''prompt'', JStr (js ''a fox'')), (js ''engine'', JStr [])])
        (js ''engine''))
   \<and> status (sent (convert (sample_env sample_content sample_candidate sample_object)
         (JObj [(js ''prompt'', JStr (js ''a fox'')), (js ''engine'', JStr [])]))) = 200
   \<and> (\<exists>r. payload (sent (convert (sample_env sample_content sample_candidate sample_object)
         (JObj [(js ''prompt'', JStr (js ''a fox'')), (js ''engine'', JStr [])])))
           = OkResult r
         \<and> get_prop (get_prop r (js ''params'')) (js ''engine'') = JStr (js ''stable''))"
proof -
  let ?e = "sample_env sample_content sample_candidate sample_object"
  let ?b = "JObj [(js ''prompt'', JStr (js ''a fox'')), (js ''engine'', JStr [])]"
  have f: "\<not> truthy (get_prop ?b (js ''engine''))"
    by (simp add: js_def)
  have v: "validateJSON sample_object = []"
    by (simp add: eval_validate sample_object_def)
  have c: "convert ?e ?b = validate_and_enforce sample_object (JStr (js ''stable''))
      [\<lparr>authorization = JStr (js ''sk-test''), user_prompt = js ''a fox'',
         engine = js ''stable''\<rparr>]"
    by (simp add: eval_convert eval_scan)
  have st: "status (sent (convert ?e ?b)) = 200"
    unfolding c using v by (simp add: validate_and_enforce_def enforce_engine_def sample_object_def js_def)
  from engine_defaults_to_stable [OF f st] f st show ?thesis by blast
qed

text \<open>
  C7.  When the sanitized prompt is empty, the handler answers 400 with \<open>Empty prompt\<close> and
  has made no call to the provider, in every environment: also without a credential, since
  the test for the empty prompt comes before the test for the credential.
\<close>

theorem empty_prompt_fails_first:
  assumes "\<not> nullish reqBody"
    and "sanitizeInput (get_prop reqBody (js ''prompt'')) = []"
  shows "convert e reqBody = respond 400 (Error ''Empty prompt'') []
     \<and> status (sent (convert e reqBody)) = 400
     \<and> provider_calls (convert e reqBody) = []"
  using assms by (simp add: convert_def member_def Let_def)

theorem empty_prompt_fails_first_witness:
  "\<not> nullish (JObj [(js ''prompt'', JStr (js ''   ''))])
   \<and> sanitizeInput (get_prop (JObj [(js ''prompt'', JStr (js ''   ''))]) (js ''prompt'')) = []
   \<and> OPENAI_KEY bare_env = JUndefined
   \<and> convert bare_env (JObj [(js ''prompt'', JStr (js ''   ''))])
       = respond 400 (Error ''Empty prompt'') []
   \<and> provider_calls (convert bare_env (JObj [(js ''prompt'', JStr (js ''   ''))])) = []"
proof -
  have 1: "\<not> nullish (JObj [(js ''prompt'', JStr (js ''   ''))])"
    by (simp add: nullish_def)
  have 2: "sanitizeInput (get_prop (JObj [(js ''prompt'', JStr (js ''   ''))]) (js ''prompt'')) = []"
    by (simp add: sanitizeInput_def trim_def is_whitespace_def slice_js_def js_def)
  have 3: "OPENAI_KEY bare_env = JUndefined"
    by (simp add: bare_env_def)
  from empty_prompt_fails_first [OF 1 2, of bare_env] 1 2 3 show ?thesis by blast
qed

text \<open>
  C9.  The validator asks for no property inside \<open>params\<close>: the object with a \<open>prompt\<close> and an
  empty \<open>params\<close> passes, and the handler completes on it with a \<open>params\<close> whose only
  property is the enforced \<open>engine\<close>.
\<close>

theorem params_may_be_empty:
  "validateJSON (JObj [(js ''prompt'', JStr x), (js ''params'', JObj [])]) = []
   \<and> validate_and_enforce (JObj [(js ''prompt'', JStr x), (js ''params'', JObj [])]) E calls
       = respond 200
           (OkResult (JObj [(js ''prompt'', JStr x), (js ''params'', JObj [(js ''engine'', E)])]))
           calls"
proof -
  have v: "validateJSON (JObj [(js ''prompt'', JStr x), (js ''params'', JObj [])]) = []"
    by (simp add: eval_validate)
  then show ?thesis
    by (simp add: validate_and_enforce_def enforce_engine_def js_def)
qed

theorem params_may_be_empty_witness:
  \<open>convert (sample_env (js ''{"prompt":"x","params":{}}'') (js ''{"prompt":"x","params":{}}'')
              (JObj [(js ''prompt'', JStr (js ''x'')), (js ''params'', JObj [])]))
      (JObj [(js ''prompt'', JStr (js ''a fox''))])
    = respond 200
        (OkResult (JObj [(js ''prompt'', JStr (js ''x'')),
                         (js ''params'', JObj [(js ''engine'', JStr (js ''stable''))])]))
        [\<lparr>authorization = JStr (js ''sk-test''), user_prompt = js ''a fox'',
           engine = js ''stable''\<rparr>]\<close>
proof -
  have \<open>convert (sample_env (js ''{"prompt":"x","params":{}}'') (js ''{"prompt":"x","params":{}}'')
              (JObj [(js ''prompt'', JStr (js ''x'')), (js ''params'', JObj [])]))
      (JObj [(js ''prompt'', JStr (js ''a fox''))])
    = validate_and_enforce (JObj [(js ''prompt'', JStr (js ''x'')), (js ''params'', JObj [])])
        (JStr (js ''stable''))
        [\<lparr>authorization = JStr (js ''sk-test''), user_prompt = js ''a fox'',
           engine = js ''stable''\<rparr>]\<close>
    by (simp add: eval_convert eval_scan)
  with params_may_be_empty [of \<open>js ''x''\<close> \<open>JStr (js ''stable'')\<close>] show ?thesis
    by simp
qed

end
